theory Spec2Isabelle
  imports Main "HOL-Library.Char_ord"
begin

section \<open>Data model\<close>

text \<open>
  A Go \<^verbatim>\<open>string\<close> is an immutable sequence of bytes; so is an Isabelle
  \<^typ>\<open>string\<close> (a list of 8-bit characters). \<^verbatim>\<open>len\<close> is \<^const>\<open>length\<close> and
  \<^verbatim>\<open>s[i]\<close> is \<^term>\<open>s ! i\<close> for an index in range. Go's \<^verbatim>\<open>int\<close> (64 bits) is
  modelled by \<^typ>\<open>int\<close>: every integer of the package is an index into, or a length of,
  a string held in memory, far below the point of wrap-around. Comparisons of
  bytes such as \<^verbatim>\<open>cur2 >= 'a'\<close> are the order of \<^typ>\<open>char\<close> (the order of the byte
  values).
\<close>

text \<open>A run-time panic of the Go program is a value of this type.\<close>

datatype error = IndexOutOfRange | SliceBoundsOutOfRange | MakeSliceLenOutOfRange

text \<open>\<^verbatim>\<open>type NamedReferenceScanner struct { Value string; LastIndex int }\<close>\<close>

record NamedReferenceScanner =
  Value :: string
  LastIndex :: int

text \<open>The constants of package checker that the scanner uses.\<close>

definition UnicodeAmpersand :: char where
  "UnicodeAmpersand = CHR ''&''"

definition UnicodeSemicolon :: char where
  "UnicodeSemicolon = CHR '';''"

section \<open>The Reference Name Table\<close>

text \<open>
  Modelled from the spec: the source of \<^verbatim>\<open>IsCharacterReferenceName\<close> and of its table
  \<^verbatim>\<open>characterReferenceNames\<close> is not among the files at hand. The specification
  describes it as a pure, case-sensitive, exact-match lookup in an immutable set of
  names. The table is therefore a parameter \<open>tbl\<close> of every function that consults it.
\<close>

definition IsCharacterReferenceName :: "string set \<Rightarrow> string \<Rightarrow> bool" where
  "IsCharacterReferenceName tbl name \<longleftrightarrow> name \<in> tbl"

text \<open>
  A small table for evaluating the functions on concrete inputs. Its members are names
  that the package's tests expect to be in the real table.
\<close>

definition sampleTable :: "string set" where
  "sampleTable = set [''amp'', ''AMP'', ''And'', ''abreve'', ''ZeroWidthSpace'', ''lt'', ''nbsp'']"

section \<open>The named-reference scanner\<close>

text \<open>
  The inner loop of \<^verbatim>\<open>Next\<close>: \<^verbatim>\<open>for j := i + 1; j < length; j++\<close>. The result is
  \<open>Some j\<close> when the loop returns from the function at the semicolon at index \<open>j\<close>, and
  \<open>None\<close> when it ends by \<^verbatim>\<open>break\<close> or by exhausting the input.
\<close>

function innerLoop :: "string \<Rightarrow> nat \<Rightarrow> nat option" where
  "innerLoop val j =
     (if j < length val then
        (let cur2 = val ! j in
         if cur2 = UnicodeSemicolon then Some j
         else
           (let isLower = (cur2 \<ge> CHR ''a'' \<and> cur2 \<le> CHR ''z'');
                isUpper = (cur2 \<ge> CHR ''A'' \<and> cur2 \<le> CHR ''Z'');
                isNumber = (cur2 \<ge> CHR ''0'' \<and> cur2 \<le> CHR ''9'')
            in if \<not> (isLower \<or> isUpper \<or> isNumber) then None
               else innerLoop val (j + 1)))
      else None)"
  by pat_completeness auto
termination
  by (relation "measure (\<lambda>(val, j). length val - j)") auto

declare innerLoop.simps [simp del]

text \<open>
  The outer loop of \<^verbatim>\<open>Next\<close>: \<^verbatim>\<open>for i := first; i < length; i++\<close>. The result is
  \<open>Some (i, j)\<close> when the function returns from inside the loop with the ampersand at
  \<open>i\<close> and the semicolon at \<open>j\<close>, and \<open>None\<close> when the loop runs to the end of the input.
\<close>

function outerLoop :: "string \<Rightarrow> nat \<Rightarrow> (nat \<times> nat) option" where
  "outerLoop val i =
     (if i < length val then
        (let cur = val ! i in
         if cur = UnicodeAmpersand then
           (if i + 1 < length val \<and> val ! (i + 1) = UnicodeSemicolon then outerLoop val (i + 1)
            else
              (case innerLoop val (i + 1) of
                 Some j \<Rightarrow> Some (i, j)
               | None \<Rightarrow> outerLoop val (i + 1)))
         else outerLoop val (i + 1))
      else None)"
  by pat_completeness auto
termination
  by (relation "measure (\<lambda>(val, i). length val - i)") auto

declare outerLoop.simps [simp del]

text \<open>
  \<^verbatim>\<open>func (scanner *NamedReferenceScanner) Next() (name string, ampIndex int)\<close>.
  The result is the pair of return values together with the scanner after the call.

  The loop variable \<open>i\<close> starts at \<open>first = LastIndex + 1\<close> and only grows, so the one
  index expression that can be out of range is \<^verbatim>\<open>scanner.Value[i]\<close> in the first
  iteration, when \<open>first\<close> is negative: Go panics there. All other index and slice
  expressions are guarded by the loop conditions (\<open>i + 1 \<le> j < length\<close> at the slice
  \<^verbatim>\<open>scanner.Value[i+1 : j]\<close>).
\<close>

definition Next :: "NamedReferenceScanner \<Rightarrow> error + ((string \<times> int) \<times> NamedReferenceScanner)" where
  "Next scanner =
     (let len = int (length (Value scanner));
          first = LastIndex scanner + 1
      in if first < len \<and> first < 0 then Inl IndexOutOfRange
         else
           (case outerLoop (Value scanner) (nat first) of
              Some (i, j) \<Rightarrow>
                Inr ((take (j - (i + 1)) (drop (i + 1) (Value scanner)), int i),
                     scanner\<lparr>LastIndex := int j\<rparr>)
            | None \<Rightarrow> Inr (([], - 1), scanner\<lparr>LastIndex := len\<rparr>)))"

text \<open>\<^verbatim>\<open>func (scanner *NamedReferenceScanner) Reset()\<close>\<close>

definition Reset :: "NamedReferenceScanner \<Rightarrow> NamedReferenceScanner" where
  "Reset scanner = scanner\<lparr>LastIndex := - 1\<rparr>"

text \<open>\<^verbatim>\<open>func NewNamedReferenceScanner(value string) *NamedReferenceScanner\<close>\<close>

definition NewNamedReferenceScanner :: "string \<Rightarrow> NamedReferenceScanner" where
  "NewNamedReferenceScanner v = \<lparr>Value = v, LastIndex = - 1\<rparr>"


text \<open>
  Every match of \<^verbatim>\<open>Next\<close> moves the cursor forward and keeps it inside the input.
  The loops that call \<^verbatim>\<open>Next\<close> until it reports exhaustion terminate for this reason.
\<close>

lemma innerLoop_bounds: "innerLoop val j = Some j' \<Longrightarrow> j \<le> j' \<and> j' < length val"
proof (induction val j rule: innerLoop.induct)
  case (1 val j)
  from "1.prems" show ?case
    apply (subst (asm) innerLoop.simps)
    apply (simp add: Let_def split: if_splits)
    using "1.IH" apply (fastforce simp: Let_def)
    done
qed

lemma outerLoop_bounds: "outerLoop val i = Some (a, j) \<Longrightarrow> i \<le> a \<and> a < j \<and> j < length val"
proof (induction val i rule: outerLoop.induct)
  case (1 val i)
  from "1.prems" show ?case
    apply (subst (asm) outerLoop.simps)
    apply (simp add: Let_def split: if_splits option.splits)
    using "1.IH" innerLoop_bounds apply (fastforce simp: Let_def)+
    done
qed

lemma Next_advances:
  assumes "Next scanner = Inr ((name, idx), scanner')" "idx \<noteq> - 1"
  shows "Value scanner' = Value scanner \<and> LastIndex scanner < LastIndex scanner'
         \<and> LastIndex scanner' < int (length (Value scanner)) \<and> 0 \<le> idx"
  using assms outerLoop_bounds[of "Value scanner" "nat (LastIndex scanner + 1)"]
  by (auto simp: Next_def Let_def split: if_splits option.splits prod.splits)

section \<open>Detecting ambiguous ampersands\<close>

text \<open>
  The loop of \<^verbatim>\<open>HasAmbiguousAmpersand\<close>: \<^verbatim>\<open>for { name, idx := (&scanner).Next() ... }\<close>.
\<close>

function hasLoop :: "string set \<Rightarrow> NamedReferenceScanner \<Rightarrow> error + bool" where
  "hasLoop tbl scanner =
     (case Next scanner of
        Inl e \<Rightarrow> Inl e
      | Inr ((name, idx), scanner') \<Rightarrow>
          if idx = - 1 then Inr False
          else if \<not> IsCharacterReferenceName tbl name then Inr True
          else hasLoop tbl scanner')"
  by pat_completeness auto
termination
proof (relation "measure (\<lambda>(tbl, scanner). nat (int (length (Value scanner)) - LastIndex scanner))")
  show "wf (measure (\<lambda>(tbl, scanner). nat (int (length (Value scanner)) - LastIndex scanner)))"
    by simp
next
  fix tbl :: "string set" and scanner r nm scanner' name idx
  assume "Next scanner = Inr r" "(nm, scanner') = r" "(name, idx) = nm" "idx \<noteq> - 1"
  then have "Next scanner = Inr ((name, idx), scanner')" by simp
  from Next_advances[OF this \<open>idx \<noteq> - 1\<close>]
  show "((tbl, scanner'), (tbl, scanner))
      \<in> measure (\<lambda>(tbl, scanner). nat (int (length (Value scanner)) - LastIndex scanner))"
    by simp
qed

declare hasLoop.simps [simp del]

text \<open>\<^verbatim>\<open>func HasAmbiguousAmpersand(val string) bool\<close>\<close>

definition HasAmbiguousAmpersand :: "string set \<Rightarrow> string \<Rightarrow> error + bool" where
  "HasAmbiguousAmpersand tbl val =
     (let scanner = \<lparr>Value = val, LastIndex = - 1\<rparr> in hasLoop tbl scanner)"

section \<open>Go built-ins and library functions used by package escaper\<close>

text \<open>
  \<^verbatim>\<open>strings.IndexRune(s, r)\<close> for a rune \<open>r\<close> below \<^verbatim>\<open>utf8.RuneSelf\<close> (every call of the
  package passes an ASCII rune): the index of the first byte equal to \<open>r\<close>, or \<open>-1\<close>.
\<close>

fun IndexRune :: "string \<Rightarrow> char \<Rightarrow> int" where
  "IndexRune [] r = - 1"
| "IndexRune (c # s) r =
     (if c = r then 0
      else (let k = IndexRune s r in if k = - 1 then - 1 else k + 1))"

text \<open>
  \<^verbatim>\<open>strings.Replace(s, old, new, -1)\<close> and \<^verbatim>\<open>bytes.Replace(s, old, new, -1)\<close> for a
  one-byte \<open>old\<close>: every occurrence of the byte is replaced by \<open>new\<close>.
\<close>

fun Replace :: "string \<Rightarrow> char \<Rightarrow> string \<Rightarrow> string" where
  "Replace [] old new = []"
| "Replace (c # s) old new = (if c = old then new else [c]) @ Replace s old new"

text \<open>
  The slice expressions \<^verbatim>\<open>s[lo:hi]\<close> and \<^verbatim>\<open>s[lo:]\<close>: Go panics unless
  \<open>0 \<le> lo \<le> hi \<le> len(s)\<close>.
\<close>

definition slice :: "string \<Rightarrow> int \<Rightarrow> int \<Rightarrow> error + string" where
  "slice s lo hi =
     (if 0 \<le> lo \<and> lo \<le> hi \<and> hi \<le> int (length s)
      then Inr (take (nat (hi - lo)) (drop (nat lo) s))
      else Inl SliceBoundsOutOfRange)"

definition sliceFrom :: "string \<Rightarrow> int \<Rightarrow> error + string" where
  "sliceFrom s lo = slice s lo (int (length s))"

text \<open>
  \<^verbatim>\<open>copy(b[dest:], src)\<close>: the destination \<^verbatim>\<open>b[dest:]\<close> shares its memory with \<open>b\<close>, so
  the call overwrites \<open>b\<close> from index \<open>dest\<close> on. It copies
  \<open>min(len(b) - dest, len(src))\<close> bytes and returns that number. The result is the
  number together with the new contents of \<open>b\<close>.
\<close>

definition copyInto :: "string \<Rightarrow> int \<Rightarrow> string \<Rightarrow> error + (int \<times> string)" where
  "copyInto b dest src =
     (if 0 \<le> dest \<and> dest \<le> int (length b) then
        (let n = min (length b - nat dest) (length src)
         in Inr (int n, take (nat dest) b @ take n src @ drop (nat dest + n) b))
      else Inl SliceBoundsOutOfRange)"

text \<open>\<^verbatim>\<open>make([]byte, n)\<close>: \<open>n\<close> zero bytes; Go panics when \<open>n\<close> is negative.\<close>

definition makeBytes :: "int \<Rightarrow> error + string" where
  "makeBytes n = (if n < 0 then Inl MakeSliceLenOutOfRange else Inr (replicate (nat n) (CHR 0x00)))"

section \<open>Escaping ambiguous ampersands\<close>

text \<open>The constants of package escaper.\<close>

definition htmlQuot :: string where
  "htmlQuot = ''&#34;''"

definition htmlAmp :: string where
  "htmlAmp = ''&amp;''"

definition unicodeDoubleQuote :: char where
  "unicodeDoubleQuote = CHR 0x22"

definition unicodeAmpersand :: char where
  "unicodeAmpersand = CHR ''&''"

definition unicodeSemicolon :: char where
  "unicodeSemicolon = CHR '';''"

text \<open>
  The first loop of \<^verbatim>\<open>escapeAmbiguousAmpersandsBuffer\<close>, which counts the ambiguous
  ampersands. The result is the count and the scanner after the loop.
\<close>

function countLoop ::
  "string set \<Rightarrow> NamedReferenceScanner \<Rightarrow> int \<Rightarrow> error + (int \<times> NamedReferenceScanner)" where
  "countLoop tbl scanner count =
     (case Next scanner of
        Inl e \<Rightarrow> Inl e
      | Inr ((name, index), scanner') \<Rightarrow>
          if index = - 1 then Inr (count, scanner')
          else if \<not> IsCharacterReferenceName tbl name then countLoop tbl scanner' (count + 1)
          else countLoop tbl scanner' count)"
  by pat_completeness auto
termination
proof (relation "measure (\<lambda>(tbl, scanner, count). nat (int (length (Value scanner)) - LastIndex scanner))")
  show "wf (measure (\<lambda>(tbl, scanner, count :: int). nat (int (length (Value scanner)) - LastIndex scanner)))"
    by simp
next
  fix tbl :: "string set" and scanner and count :: int and r nm scanner' name index
  assume "Next scanner = Inr r" "(nm, scanner') = r" "(name, index) = nm" "index \<noteq> - 1"
  then have "Next scanner = Inr ((name, index), scanner')" by simp
  from Next_advances[OF this \<open>index \<noteq> - 1\<close>]
  show "((tbl, scanner', count + 1), (tbl, scanner, count))
      \<in> measure (\<lambda>(tbl, scanner, count). nat (int (length (Value scanner)) - LastIndex scanner))"
    by simp
next
  fix tbl :: "string set" and scanner and count :: int and r nm scanner' name index
  assume "Next scanner = Inr r" "(nm, scanner') = r" "(name, index) = nm" "index \<noteq> - 1"
  then have "Next scanner = Inr ((name, index), scanner')" by simp
  from Next_advances[OF this \<open>index \<noteq> - 1\<close>]
  show "((tbl, scanner', count), (tbl, scanner, count))
      \<in> measure (\<lambda>(tbl, scanner, count). nat (int (length (Value scanner)) - LastIndex scanner))"
    by simp
qed

declare countLoop.simps [simp del]

text \<open>
  The second loop of \<^verbatim>\<open>escapeAmbiguousAmpersandsBuffer\<close>, which fills the buffer \<open>b\<close>.
  \<open>dest\<close> is the write position in \<open>b\<close> and \<open>src\<close> the read position in \<open>val\<close>.
\<close>

function fillLoop ::
  "string set \<Rightarrow> string \<Rightarrow> NamedReferenceScanner \<Rightarrow> string \<Rightarrow> int \<Rightarrow> int \<Rightarrow> error + string" where
  "fillLoop tbl val scanner b dest src =
     (case Next scanner of
        Inl e \<Rightarrow> Inl e
      | Inr ((name, index), scanner') \<Rightarrow>
          if index = - 1 then
            (case sliceFrom val src of
               Inl e \<Rightarrow> Inl e
             | Inr rest \<Rightarrow>
                 (case copyInto b dest rest of
                    Inl e \<Rightarrow> Inl e
                  | Inr (n, b') \<Rightarrow> Inr b'))
          else if \<not> IsCharacterReferenceName tbl name then
            (case slice val src index of
               Inl e \<Rightarrow> Inl e
             | Inr seg \<Rightarrow>
                 (case copyInto b dest seg of
                    Inl e \<Rightarrow> Inl e
                  | Inr (n1, b1) \<Rightarrow>
                      (case copyInto b1 (dest + n1) htmlAmp of
                         Inl e \<Rightarrow> Inl e
                       | Inr (n2, b2) \<Rightarrow>
                           fillLoop tbl val scanner' b2 (dest + n1 + n2) (index + 1))))
          else fillLoop tbl val scanner' b dest src)"
  by pat_completeness auto
termination
proof (relation "measure (\<lambda>(tbl, val, scanner, b, dest, src).
    nat (int (length (Value scanner)) - LastIndex scanner))")
  show "wf (measure (\<lambda>(tbl, val, scanner, b, dest :: int, src :: int).
    nat (int (length (Value scanner)) - LastIndex scanner)))"
    by simp
next
  fix tbl :: "string set" and val b b1 b2 :: string and scanner and dest src :: int and r nm scanner' name index n1 n2
  assume "Next scanner = Inr r" "(nm, scanner') = r" "(name, index) = nm" "index \<noteq> - 1"
  then have "Next scanner = Inr ((name, index), scanner')" by simp
  from Next_advances[OF this \<open>index \<noteq> - 1\<close>]
  show "((tbl, val, scanner', b2, dest + n1 + n2, index + 1), (tbl, val, scanner, b, dest, src))
      \<in> measure (\<lambda>(tbl, val, scanner, b, dest, src).
          nat (int (length (Value scanner)) - LastIndex scanner))"
    by simp
next
  fix tbl :: "string set" and val b b1 b2 :: string and scanner and dest src :: int and r nm scanner' name index
  assume "Next scanner = Inr r" "(nm, scanner') = r" "(name, index) = nm" "index \<noteq> - 1"
  then have "Next scanner = Inr ((name, index), scanner')" by simp
  from Next_advances[OF this \<open>index \<noteq> - 1\<close>]
  show "((tbl, val, scanner', b, dest, src), (tbl, val, scanner, b, dest, src))
      \<in> measure (\<lambda>(tbl, val, scanner, b, dest, src).
          nat (int (length (Value scanner)) - LastIndex scanner))"
    by simp
qed

declare fillLoop.simps [simp del]

text \<open>
  \<^verbatim>\<open>func escapeAmbiguousAmpersandsBuffer(val string) []byte\<close>. The result \<open>None\<close> is the
  \<^verbatim>\<open>nil\<close> slice.
\<close>

definition escapeAmbiguousAmpersandsBuffer :: "string set \<Rightarrow> string \<Rightarrow> error + string option" where
  "escapeAmbiguousAmpersandsBuffer tbl val =
     (let scanner = \<lparr>Value = val, LastIndex = - 1\<rparr> in
      case countLoop tbl scanner 0 of
        Inl e \<Rightarrow> Inl e
      | Inr (count, scanner) \<Rightarrow>
          (let scanner = Reset scanner in
           if count = 0 then Inr None
           else
             (let finalLength = int (length val) - count + (count * int (length htmlAmp)) in
              case makeBytes finalLength of
                Inl e \<Rightarrow> Inl e
              | Inr b \<Rightarrow>
                  (case fillLoop tbl val scanner b 0 0 of
                     Inl e \<Rightarrow> Inl e
                   | Inr b \<Rightarrow> Inr (Some b)))))"

text \<open>\<^verbatim>\<open>func EscapeAmbiguousAmpersands(val string) string\<close>\<close>

definition EscapeAmbiguousAmpersands :: "string set \<Rightarrow> string \<Rightarrow> error + string" where
  "EscapeAmbiguousAmpersands tbl val =
     (let len = int (length val) in
      if len < 3 then Inr val
      else
        (let ampIdx = IndexRune val unicodeAmpersand in
         if ampIdx = - 1 \<or> ampIdx \<ge> len - 2 then Inr val
         else
           (case escapeAmbiguousAmpersandsBuffer tbl val of
              Inl e \<Rightarrow> Inl e
            | Inr b \<Rightarrow> (case b of Some b \<Rightarrow> Inr b | None \<Rightarrow> Inr val))))"

text \<open>\<^verbatim>\<open>func EscapeAttributeValueDoubleQuoted(val string) string\<close>\<close>

definition EscapeAttributeValueDoubleQuoted :: "string set \<Rightarrow> string \<Rightarrow> error + string" where
  "EscapeAttributeValueDoubleQuoted tbl val =
     (let idxAmp = IndexRune val unicodeAmpersand;
          idxQuo = IndexRune val unicodeDoubleQuote
      in if idxAmp = - 1 \<and> idxQuo = - 1 then Inr val
         else
           (let idxSemi = IndexRune val unicodeSemicolon in
            case (if idxAmp \<noteq> - 1 \<and> idxAmp < idxSemi
                  then escapeAmbiguousAmpersandsBuffer tbl val
                  else Inr None) of
              Inl e \<Rightarrow> Inl e
            | Inr b \<Rightarrow>
                if idxQuo \<noteq> - 1 then
                  (case b of
                     None \<Rightarrow> Inr (Replace val unicodeDoubleQuote htmlQuot)
                   | Some b \<Rightarrow> Inr (Replace b unicodeDoubleQuote htmlQuot))
                else
                  (case b of None \<Rightarrow> Inr val | Some b \<Rightarrow> Inr b)))"


section \<open>Iterating over the code points of a string\<close>

text \<open>
  \<^verbatim>\<open>for i, char := range val\<close> decodes the UTF-8 bytes of \<open>val\<close>: \<open>i\<close> is the byte index
  at which a code point starts and \<open>char\<close> the code point. A byte sequence that is not
  valid UTF-8 yields the replacement character \<open>U+FFFD\<close> and the iteration advances by
  one byte. A rune is modelled by its value as a natural number.
\<close>

definition RuneError :: nat where
  "RuneError = 0xFFFD"

text \<open>A continuation byte lies between \<^verbatim>\<open>locb = 0x80\<close> and \<^verbatim>\<open>hicb = 0xBF\<close>.\<close>

definition isContinuation :: "char \<Rightarrow> bool" where
  "isContinuation b \<longleftrightarrow> 0x80 \<le> (of_char b :: nat) \<and> (of_char b :: nat) \<le> 0xBF"

text \<open>
  The code point at the head of a non-empty byte string and the number of bytes it
  takes, as the Go run time decodes it: bytes below \<open>0x80\<close> stand for themselves; a lead
  byte in \<open>[0xC0, 0xE0)\<close>, \<open>[0xE0, 0xF0)\<close> or \<open>[0xF0, 0xF8)\<close> starts a sequence of two,
  three or four bytes, which is valid when its continuation bytes are present and the
  value is neither overlong, nor a surrogate, nor above \<open>U+10FFFF\<close>.
\<close>

fun decodeRune :: "string \<Rightarrow> nat \<times> nat" where
  "decodeRune [] = (RuneError, 1)"
| "decodeRune (b0 # s) =
     (let c0 = (of_char b0 :: nat) in
      if c0 < 0x80 then (c0, 1)
      else if 0xC0 \<le> c0 \<and> c0 < 0xE0 then
        (case s of
           b1 # _ \<Rightarrow>
             if isContinuation b1 then
               (let r = (c0 mod 32) * 64 + of_char b1 mod 64
                in if 0x7F < r then (r, 2) else (RuneError, 1))
             else (RuneError, 1)
         | _ \<Rightarrow> (RuneError, 1))
      else if 0xE0 \<le> c0 \<and> c0 < 0xF0 then
        (case s of
           b1 # b2 # _ \<Rightarrow>
             if isContinuation b1 \<and> isContinuation b2 then
               (let r = (c0 mod 16) * 4096 + (of_char b1 mod 64) * 64 + of_char b2 mod 64
                in if 0x7FF < r \<and> \<not> (0xD800 \<le> r \<and> r \<le> 0xDFFF) then (r, 3)
                   else (RuneError, 1))
             else (RuneError, 1)
         | _ \<Rightarrow> (RuneError, 1))
      else if 0xF0 \<le> c0 \<and> c0 < 0xF8 then
        (case s of
           b1 # b2 # b3 # _ \<Rightarrow>
             if isContinuation b1 \<and> isContinuation b2 \<and> isContinuation b3 then
               (let r = (c0 mod 8) * 262144 + (of_char b1 mod 64) * 4096
                        + (of_char b2 mod 64) * 64 + of_char b3 mod 64
                in if 0xFFFF < r \<and> r \<le> 0x10FFFF then (r, 4) else (RuneError, 1))
             else (RuneError, 1)
         | _ \<Rightarrow> (RuneError, 1))
      else (RuneError, 1))"

lemma decodeRune_width: "1 \<le> snd (decodeRune s) \<and> snd (decodeRune s) \<le> 4"
  by (cases s) (auto simp: Let_def split: list.splits)

text \<open>
  The pairs \<open>(i, char)\<close> that the range loop goes through, for the bytes \<open>s\<close> that start at
  index \<open>i\<close> of the string.
\<close>

function rangeString :: "nat \<Rightarrow> string \<Rightarrow> (nat \<times> nat) list" where
  "rangeString i [] = []"
| "rangeString i (b # s) =
     (case decodeRune (b # s) of
        (r, w) \<Rightarrow> (i, r) # rangeString (i + w) (drop w (b # s)))"
  by pat_completeness auto
termination
proof (relation "measure (\<lambda>(i, s). length s)")
  show "wf (measure (\<lambda>(i :: nat, s :: string). length s))"
    by simp
next
  fix i :: nat and b :: char and s :: string and r w :: nat
  assume "(r, w) = decodeRune (b # s)"
  then have "1 \<le> w" using decodeRune_width[of "b # s"] by (metis snd_conv)
  then show "((i + w, drop w (b # s)), (i, b # s)) \<in> measure (\<lambda>(i, s). length s)"
    by simp
qed

section \<open>The CSS3 identifier validator\<close>

text \<open>The code point of an ASCII character literal such as \<^verbatim>\<open>'0'\<close>.\<close>

definition rune :: "char \<Rightarrow> nat" where
  "rune c = of_char c"

text \<open>
  The variables of \<^verbatim>\<open>IsValidCss3Identifier\<close> that live across iterations of its loop.
  (\<^verbatim>\<open>second\<close> is written and read in one iteration only.)
\<close>

record cssState =
  first :: nat
  wasSlash :: bool
  inEscape :: bool
  hexCount :: int

text \<open>The state at loop entry: Go's zero values.\<close>

definition cssInit :: cssState where
  "cssInit = \<lparr>first = 0, wasSlash = False, inEscape = False, hexCount = 0\<rparr>"

text \<open>
  One iteration of the loop for the pair \<open>(i, char)\<close>. \<open>None\<close> stands for
  \<^verbatim>\<open>return false\<close>, \<open>Some st\<close> for reaching \<^verbatim>\<open>continue\<close> with the variables \<open>st\<close>.
\<close>

definition cssBody :: "cssState \<Rightarrow> nat \<Rightarrow> nat \<Rightarrow> cssState option" where
  "cssBody st0 i char =
     (let st1 = (if i = 0 then st0\<lparr>first := char\<rparr> else st0) in
      if i = 0 \<and> first st1 \<ge> rune CHR ''0'' \<and> first st1 \<le> rune CHR ''9'' then None
      else
        (let second = char in
         if i = 1 \<and> first st1 = rune CHR ''-''
            \<and> (second = rune CHR ''-'' \<or> (second \<ge> rune CHR ''0'' \<and> second \<le> rune CHR ''9''))
         then None
         else
           (let st = (if hexCount st1 > 6 then st1\<lparr>inEscape := False\<rparr> else st1) in
            if char \<ge> 0xA0 then Some (st\<lparr>inEscape := False, wasSlash := False\<rparr>)
            else if char = rune CHR ''-'' \<or> char = rune CHR ''_'' then
              Some (st\<lparr>inEscape := False, wasSlash := False\<rparr>)
            else if char \<ge> rune CHR ''a'' \<and> char \<le> rune CHR ''z'' then
              (if char > rune CHR ''f'' then Some (st\<lparr>wasSlash := False, inEscape := False\<rparr>)
               else Some (st\<lparr>wasSlash := False, hexCount := hexCount st + 1\<rparr>))
            else if char \<ge> rune CHR ''A'' \<and> char \<le> rune CHR ''Z'' then
              (if char > rune CHR ''F'' then Some (st\<lparr>wasSlash := False, inEscape := False\<rparr>)
               else Some (st\<lparr>wasSlash := False, hexCount := hexCount st + 1\<rparr>))
            else if char \<ge> rune CHR ''0'' \<and> char \<le> rune CHR ''9'' then
              Some (st\<lparr>wasSlash := False, hexCount := hexCount st + 1\<rparr>)
            else if char = rune CHR 0x5C then
              Some (st\<lparr>hexCount := 0, wasSlash := True, inEscape := True\<rparr>)
            else if inEscape st
                    \<and> (char = 0x20 \<or> char = 0x09 \<or> char = 0x0A \<or> char = 0x0D \<or> char = 0x0C)
            then Some (st\<lparr>inEscape := False, wasSlash := False\<rparr>)
            else if wasSlash st then Some (st\<lparr>wasSlash := False, inEscape := False\<rparr>)
            else None)))"

text \<open>
  The loop over the pairs of the range clause: \<open>False\<close> as soon as an iteration returns
  false, \<open>True\<close> (the \<^verbatim>\<open>return true\<close> after the loop) when the pairs are used up.
\<close>

fun cssLoop :: "cssState \<Rightarrow> (nat \<times> nat) list \<Rightarrow> bool" where
  "cssLoop st [] = True"
| "cssLoop st ((i, char) # rest) =
     (case cssBody st i char of
        None \<Rightarrow> False
      | Some st' \<Rightarrow> cssLoop st' rest)"

text \<open>\<^verbatim>\<open>func IsValidCss3Identifier(val string) bool\<close>\<close>

definition IsValidCss3Identifier :: "string \<Rightarrow> bool" where
  "IsValidCss3Identifier val =
     (if length val = 0 then False else cssLoop cssInit (rangeString 0 val))"

text \<open>\<^verbatim>\<open>func IsValidCss3IdValue(val string) bool\<close>\<close>

definition IsValidCss3IdValue :: "string \<Rightarrow> bool" where
  "IsValidCss3IdValue val =
     (if length val < 2 then False
      else val ! 0 = CHR 0x23 \<and> IsValidCss3Identifier (drop 1 val))"

section \<open>Specification-level notions\<close>

text \<open>
  The definitions of this section are not translations of code. They say, in the words
  of the specification, what the code is expected to compute, and the theorems below
  compare the code with them.
\<close>

text \<open>An ASCII letter or digit.\<close>

definition alnum :: "char \<Rightarrow> bool" where
  "alnum c \<longleftrightarrow> (CHR ''a'' \<le> c \<and> c \<le> CHR ''z'') \<or> (CHR ''A'' \<le> c \<and> c \<le> CHR ''Z'') \<or> (CHR ''0'' \<le> c \<and> c \<le> CHR ''9'')"

text \<open>
  The specification's candidate named reference: at byte index \<open>i\<close> of \<open>val\<close> there are
  an ampersand, then the one or more ASCII letters and digits \<open>name\<close>, then a semicolon.
\<close>

definition refAt :: "string \<Rightarrow> nat \<Rightarrow> string \<Rightarrow> bool" where
  "refAt val i name \<longleftrightarrow>
     name \<noteq> [] \<and> list_all alnum name \<and>
     take (length name + 2) (drop i val) = CHR ''&'' # name @ '';''"

text \<open>
  The specification's ambiguous ampersand: the ampersand at index \<open>i\<close> starts a candidate
  named reference whose name is not in the table.
\<close>

definition ambiguousAt :: "string set \<Rightarrow> string \<Rightarrow> nat \<Rightarrow> bool" where
  "ambiguousAt tbl val i \<longleftrightarrow> (\<exists>name. refAt val i name \<and> \<not> IsCharacterReferenceName tbl name)"

text \<open>
  The same notions as functions on the rest of the text, for the proofs:
  \<open>nameEnd s = Some k\<close> when \<open>s\<close> is \<open>k\<close> letters and digits followed by a semicolon;
  \<open>refName s = Some n\<close> when a candidate reference with name \<open>n\<close> starts at the head of
  \<open>s\<close>; \<open>firstRef s = Some (k, n)\<close> when the first candidate reference in \<open>s\<close> starts
  at offset \<open>k\<close> and has name \<open>n\<close>.
\<close>

fun nameEnd :: "string \<Rightarrow> nat option" where
  "nameEnd [] = None"
| "nameEnd (c # r) =
     (if c = CHR '';'' then Some 0
      else if alnum c then map_option Suc (nameEnd r)
      else None)"

fun refName :: "string \<Rightarrow> string option" where
  "refName [] = None"
| "refName (c # r) =
     (if c = CHR ''&'' then
        (case nameEnd r of
           None \<Rightarrow> None
         | Some k \<Rightarrow> if k = 0 then None else Some (take k r))
      else None)"

fun firstRef :: "string \<Rightarrow> (nat \<times> string) option" where
  "firstRef [] = None"
| "firstRef (c # s) =
     (case refName (c # s) of
        Some n \<Rightarrow> Some (0, n)
      | None \<Rightarrow> map_option (\<lambda>(k, n). (Suc k, n)) (firstRef s))"

text \<open>An ambiguous ampersand is at the head of \<open>s\<close>.\<close>

definition ambiguousHead :: "string set \<Rightarrow> string \<Rightarrow> bool" where
  "ambiguousHead tbl s =
     (case refName s of None \<Rightarrow> False | Some n \<Rightarrow> \<not> IsCharacterReferenceName tbl n)"

text \<open>
  The specification's escape: every byte is copied, except that the ampersand of an
  ambiguous ampersand becomes \<open>&amp;\<close>. \<open>countSpec\<close> is the number of ambiguous
  ampersands.
\<close>

fun escapeSpec :: "string set \<Rightarrow> string \<Rightarrow> string" where
  "escapeSpec tbl [] = []"
| "escapeSpec tbl (c # s) =
     (if ambiguousHead tbl (c # s) then ''&amp;'' else [c]) @ escapeSpec tbl s"

fun countSpec :: "string set \<Rightarrow> string \<Rightarrow> nat" where
  "countSpec tbl [] = 0"
| "countSpec tbl (c # s) = (if ambiguousHead tbl (c # s) then 1 else 0) + countSpec tbl s"


text \<open>
  The code points of a string, in the order in which the range clause yields them.
\<close>

definition codePoints :: "string \<Rightarrow> nat list" where
  "codePoints val = map snd (rangeString 0 val)"

text \<open>The classes of code points that the specification of the validator names.\<close>

definition isDigitRune :: "nat \<Rightarrow> bool" where
  "isDigitRune r \<longleftrightarrow> rune CHR ''0'' \<le> r \<and> r \<le> rune CHR ''9''"

definition isNameRune :: "nat \<Rightarrow> bool" where
  "isNameRune r \<longleftrightarrow>
     r \<ge> 0xA0 \<or> r = rune CHR ''-'' \<or> r = rune CHR ''_''
     \<or> (rune CHR ''a'' \<le> r \<and> r \<le> rune CHR ''z'')
     \<or> (rune CHR ''A'' \<le> r \<and> r \<le> rune CHR ''Z'')
     \<or> isDigitRune r"

text \<open>
  The specification's start rules: the first code point is an ASCII digit, or the first
  is a hyphen and the second is a hyphen or an ASCII digit.
\<close>

fun badStart :: "nat list \<Rightarrow> bool" where
  "badStart [] = False"
| "badStart [r0] = isDigitRune r0"
| "badStart (r0 # r1 # rest) =
     (isDigitRune r0 \<or> (r0 = rune CHR ''-'' \<and> (r1 = rune CHR ''-'' \<or> isDigitRune r1)))"


text \<open>
  The specification's rules 4 to 10 for one code point, as a function of the variables
  after the start rules and the cap on the hex digits have been applied. The lemma
  \<open>cssBody_rules0\<close> shows that the loop body of the code ends in exactly this cascade.
\<close>

definition cssRules :: "cssState \<Rightarrow> nat \<Rightarrow> cssState option" where
  "cssRules st char =
     (if char \<ge> 0xA0 then Some (st\<lparr>inEscape := False, wasSlash := False\<rparr>)
      else if char = rune CHR ''-'' \<or> char = rune CHR ''_'' then
        Some (st\<lparr>inEscape := False, wasSlash := False\<rparr>)
      else if char \<ge> rune CHR ''a'' \<and> char \<le> rune CHR ''z'' then
        (if char > rune CHR ''f'' then Some (st\<lparr>wasSlash := False, inEscape := False\<rparr>)
         else Some (st\<lparr>wasSlash := False, hexCount := hexCount st + 1\<rparr>))
      else if char \<ge> rune CHR ''A'' \<and> char \<le> rune CHR ''Z'' then
        (if char > rune CHR ''F'' then Some (st\<lparr>wasSlash := False, inEscape := False\<rparr>)
         else Some (st\<lparr>wasSlash := False, hexCount := hexCount st + 1\<rparr>))
      else if char \<ge> rune CHR ''0'' \<and> char \<le> rune CHR ''9'' then
        Some (st\<lparr>wasSlash := False, hexCount := hexCount st + 1\<rparr>)
      else if char = rune CHR 0x5C then
        Some (st\<lparr>hexCount := 0, wasSlash := True, inEscape := True\<rparr>)
      else if inEscape st
              \<and> (char = 0x20 \<or> char = 0x09 \<or> char = 0x0A \<or> char = 0x0D \<or> char = 0x0C)
      then Some (st\<lparr>inEscape := False, wasSlash := False\<rparr>)
      else if wasSlash st then Some (st\<lparr>wasSlash := False, inEscape := False\<rparr>)
      else None)"


section \<open>The scanner and the escaper against their specification\<close>

lemma alnum_not_semi [simp]: "\<not> alnum CHR '';''" "\<not> alnum CHR ''&''"
  by (simp_all add: alnum_def less_eq_char_def)

lemma innerLoop_step:
  "innerLoop val j =
     (if j < length val then
        if val ! j = CHR '';'' then Some j
        else if alnum (val ! j) then innerLoop val (j + 1) else None
      else None)"
  by (subst innerLoop.simps) (simp add: alnum_def Let_def UnicodeSemicolon_def)

lemma outerLoop_step:
  "outerLoop val i =
     (if i < length val then
        if val ! i = CHR ''&'' then
          if i + 1 < length val \<and> val ! (i + 1) = CHR '';'' then outerLoop val (i + 1)
          else (case innerLoop val (i + 1) of Some j \<Rightarrow> Some (i, j) | None \<Rightarrow> outerLoop val (i + 1))
        else outerLoop val (i + 1)
      else None)"
  by (subst outerLoop.simps) (simp add: Let_def UnicodeSemicolon_def UnicodeAmpersand_def)

lemma innerLoop_char:
  "innerLoop val j = map_option (\<lambda>k. j + k) (nameEnd (drop j val))"
proof (induction "length val - j" arbitrary: j)
  case 0
  then show ?case by (subst innerLoop_step) simp
next
  case (Suc n)
  then have lt: "j < length val" and n: "n = length val - (j + 1)" by simp_all
  have d: "drop j val = val ! j # drop (j + 1) val"
    using lt by (simp add: Cons_nth_drop_Suc)
  note IH = Suc.hyps(1)[OF n]
  show ?case
    unfolding d using lt IH
    by (subst innerLoop_step) (cases "nameEnd (drop (j + 1) val)"; simp)
qed

lemma nameEnd_lt: "nameEnd s = Some k \<Longrightarrow> k < length s"
  by (induction s arbitrary: k) (auto split: if_splits)

lemma nameEnd_0: "nameEnd s = Some 0 \<longleftrightarrow> (\<exists>r. s = CHR '';'' # r)"
  by (cases s) (auto split: if_splits)

lemma outerLoop_char:
  "outerLoop val i =
     (case firstRef (drop i val) of
        None \<Rightarrow> None
      | Some (k, n) \<Rightarrow> Some (i + k, i + k + 1 + length n))"
proof (induction "length val - i" arbitrary: i)
  case 0
  then show ?case by (subst outerLoop_step) simp
next
  case (Suc m)
  then have lt: "i < length val" and m: "m = length val - (i + 1)" by simp_all
  have d: "drop i val = val ! i # drop (i + 1) val"
    using lt by (simp add: Cons_nth_drop_Suc)
  note IH = Suc.hyps(1)[OF m]
  have skip: "?case" if "refName (drop i val) = None" "outerLoop val i = outerLoop val (i + 1)"
  proof -
    have "firstRef (drop i val) = map_option (\<lambda>(k, n). (Suc k, n)) (firstRef (drop (i + 1) val))"
      using that(1) d by (metis firstRef.simps(2) option.simps(4))
    then show ?thesis using IH that(2)
      by (simp split: option.splits)
  qed
  show ?case
  proof (cases "val ! i = CHR ''&''")
    case False
    have "outerLoop val i = outerLoop val (i + 1)"
      using False lt by (subst outerLoop_step) simp
    moreover have "refName (drop i val) = None"
      unfolding d using False by simp
    ultimately show ?thesis using skip by simp
  next
    case amp: True
    show ?thesis
    proof (cases "i + 1 < length val \<and> val ! (i + 1) = CHR '';''")
      case True
      have "outerLoop val i = outerLoop val (i + 1)"
        using True amp lt by (subst outerLoop_step) simp
      moreover have "drop (i + 1) val = CHR '';'' # drop (i + 2) val"
        using True Cons_nth_drop_Suc[of "i + 1" val] by simp
      then have "refName (drop i val) = None"
        unfolding d by simp
      ultimately show ?thesis using skip by simp
    next
      case nskip: False
      then have ne0: "nameEnd (drop (i + 1) val) \<noteq> Some 0"
        unfolding nameEnd_0 by (metis drop_eq_Nil2 list.distinct(1) not_le nth_via_drop)
      show ?thesis
      proof (cases "nameEnd (drop (i + 1) val)")
        case None
        then have "outerLoop val i = outerLoop val (i + 1)"
          using amp lt nskip by (subst outerLoop_step) (auto simp: innerLoop_char)
        moreover have "refName (drop i val) = None"
          unfolding d using None by simp
        ultimately show ?thesis using skip by simp
      next
        case (Some k)
        then have k: "k \<noteq> 0" using ne0 by auto
        have o: "outerLoop val i = Some (i, i + 1 + k)"
          using Some amp lt nskip by (subst outerLoop_step) (auto simp: innerLoop_char)
        have k': "k < length (drop (i + 1) val)"
          using Some by (rule nameEnd_lt)
        have "refName (drop i val) = Some (take k (drop (i + 1) val))"
          unfolding d using Some k amp by simp
        then have "firstRef (drop i val) = Some (0, take k (drop (i + 1) val))"
          using d by (metis firstRef.simps(2) option.simps(5))
        then show ?thesis using o k' by simp
      qed
    qed
  qed
qed


lemma nameEnd_append: "list_all alnum n \<Longrightarrow> nameEnd (n @ CHR '';'' # rest) = Some (length n)"
  by (induction n) auto

lemma nameEnd_Some_D:
  "nameEnd s = Some k \<Longrightarrow> list_all alnum (take k s) \<and> s = take k s @ CHR '';'' # drop (Suc k) s"
proof (induction s arbitrary: k)
  case Nil
  then show ?case by simp
next
  case (Cons c r)
  show ?case
  proof (cases "c = CHR '';''")
    case True
    then show ?thesis using Cons.prems by simp
  next
    case False
    then obtain k' where k': "alnum c" "nameEnd r = Some k'" "k = Suc k'"
      using Cons.prems by (auto split: if_splits)
    then show ?thesis using Cons.IH[OF k'(2)] by simp
  qed
qed

lemma refName_Some_D:
  assumes "refName s = Some n"
  shows "n \<noteq> [] \<and> list_all alnum n \<and> s = CHR ''&'' # n @ CHR '';'' # drop (length n + 2) s"
proof -
  obtain c r where s: "s = c # r" using assms by (cases s) auto
  then obtain k where k: "c = CHR ''&''" "nameEnd r = Some k" "k \<noteq> 0" "n = take k r"
    using assms by (auto split: if_splits option.splits)
  have lt: "k < length r" using k(2) by (rule nameEnd_lt)
  then have len: "length n = k" using k(4) by simp
  from nameEnd_Some_D[OF k(2)] have "list_all alnum n" "r = n @ CHR '';'' # drop (Suc k) r"
    using k(4) by simp_all
  then show ?thesis using s k len lt by auto
qed

lemma refName_intro:
  assumes "n \<noteq> []" "list_all alnum n"
  shows "refName (CHR ''&'' # n @ CHR '';'' # rest) = Some n"
  using assms nameEnd_append[OF assms(2), of rest] by simp

lemma refAt_iff_refName: "refAt val i n \<longleftrightarrow> refName (drop i val) = Some n"
proof
  assume "refAt val i n"
  then have n: "n \<noteq> []" "list_all alnum n"
    and t: "take (length n + 2) (drop i val) = CHR ''&'' # n @ '';''"
    by (simp_all add: refAt_def)
  have "drop i val = take (length n + 2) (drop i val) @ drop (length n + 2) (drop i val)"
    by (rule append_take_drop_id[symmetric])
  then have "drop i val = CHR ''&'' # n @ CHR '';'' # drop (length n + 2) (drop i val)"
    unfolding t by simp
  then show "refName (drop i val) = Some n"
    using refName_intro[OF n] by metis
next
  assume "refName (drop i val) = Some n"
  from refName_Some_D[OF this]
  have n: "n \<noteq> []" "list_all alnum n"
    and d: "drop i val = CHR ''&'' # n @ CHR '';'' # drop (length n + 2) (drop i val)"
    by simp_all
  have "take (length n + 2) (drop i val) = take (length n + 2) (CHR ''&'' # n @ CHR '';'' # drop (length n + 2) (drop i val))"
    using d by simp
  also have "\<dots> = CHR ''&'' # n @ '';''" by simp
  finally show "refAt val i n" using n by (simp add: refAt_def)
qed

lemma firstRef_Some_iff:
  "firstRef s = Some (k, n) \<longleftrightarrow> refName (drop k s) = Some n \<and> (\<forall>k'<k. refName (drop k' s) = None)"
proof (induction s arbitrary: k)
  case Nil
  then show ?case by simp
next
  case (Cons c r)
  show ?case
  proof (cases "refName (c # r)")
    case (Some m)
    then show ?thesis by (cases k) auto
  next
    case None
    show ?thesis
    proof (cases k)
      case 0
      then show ?thesis using None by auto
    next
      case (Suc k')
      have "(\<forall>j<Suc k'. refName (drop j (c # r)) = None) \<longleftrightarrow> (\<forall>j<k'. refName (drop j r) = None)"
        using None by (auto simp: less_Suc_eq_0_disj)
      then show ?thesis using None Suc Cons.IH[of k'] by auto
    qed
  qed
qed

lemma firstRef_None_iff: "firstRef s = None \<longleftrightarrow> (\<forall>k. refName (drop k s) = None)"
proof (induction s)
  case Nil
  then show ?case by simp
next
  case (Cons c r)
  have "(\<forall>k. refName (drop k (c # r)) = None) \<longleftrightarrow> refName (c # r) = None \<and> (\<forall>k. refName (drop k r) = None)"
    by (metis drop0 drop_Suc_Cons not0_implies_Suc)
  then show ?case using Cons.IH by (auto split: option.splits)
qed

lemma firstRef_Some_D:
  assumes "firstRef s = Some (k, n)"
  shows "n \<noteq> []" "list_all alnum n" "drop k s = CHR ''&'' # n @ CHR '';'' # drop (k + length n + 2) s"
    "k + length n + 2 \<le> length s"
proof -
  have r: "refName (drop k s) = Some n" using assms by (simp add: firstRef_Some_iff)
  from refName_Some_D[OF r] show "n \<noteq> []" "list_all alnum n" by simp_all
  from refName_Some_D[OF r] show d: "drop k s = CHR ''&'' # n @ CHR '';'' # drop (k + length n + 2) s"
    by (simp add: add.commute add.left_commute)
  have "length (drop k s) \<ge> length n + 2"
    by (subst d) simp
  then show "k + length n + 2 \<le> length s" by simp
qed

text \<open>Next, for a cursor that is at -1 or at a previous stop.\<close>

lemma Next_char:
  assumes "- 1 \<le> LastIndex scanner"
  shows "Next scanner =
    (case firstRef (drop (nat (LastIndex scanner + 1)) (Value scanner)) of
       None \<Rightarrow> Inr (([], - 1), scanner\<lparr>LastIndex := int (length (Value scanner))\<rparr>)
     | Some (k, n) \<Rightarrow>
         Inr ((n, int (nat (LastIndex scanner + 1) + k)),
              scanner\<lparr>LastIndex := int (nat (LastIndex scanner + 1) + k + 1 + length n)\<rparr>))"
proof (cases "firstRef (drop (nat (LastIndex scanner + 1)) (Value scanner))")
  case None
  then show ?thesis using assms by (simp add: Next_def outerLoop_char Let_def)
next
  case (Some p)
  obtain k n where p: "p = (k, n)" by (cases p)
  define f where "f = nat (LastIndex scanner + 1)"
  have fr: "firstRef (drop f (Value scanner)) = Some (k, n)" using Some p f_def by simp
  from firstRef_Some_D(3)[OF fr]
  have "drop (f + k) (Value scanner) = CHR ''&'' # n @ CHR '';'' # drop (k + length n + 2) (drop f (Value scanner))"
    by (simp add: add.commute)
  then have "drop (Suc (f + k)) (Value scanner) = n @ CHR '';'' # drop (k + length n + 2) (drop f (Value scanner))"
    by (metis drop_Suc list.sel(3) tl_drop)
  then have "take (length n) (drop (Suc (f + k)) (Value scanner)) = n" by simp
  then show ?thesis using assms fr
    by (simp add: Next_def outerLoop_char Let_def f_def[symmetric])
qed


lemma ambiguousAt_iff: "ambiguousAt tbl val i \<longleftrightarrow> ambiguousHead tbl (drop i val)"
  by (auto simp: ambiguousAt_def ambiguousHead_def refAt_iff_refName split: option.splits)

lemma ambiguousHead_not_amp [simp]: "c \<noteq> CHR ''&'' \<Longrightarrow> \<not> ambiguousHead tbl (c # s)"
  by (simp add: ambiguousHead_def)

lemma alnum_not_amp: "alnum c \<Longrightarrow> c \<noteq> CHR ''&''"
  by auto

lemma escapeSpec_alnum_run: "list_all alnum n \<Longrightarrow> escapeSpec tbl (n @ s) = n @ escapeSpec tbl s"
  by (induction n) (auto simp: alnum_not_amp)

lemma countSpec_alnum_run: "list_all alnum n \<Longrightarrow> countSpec tbl (n @ s) = countSpec tbl s"
  by (induction n) (auto simp: alnum_not_amp)

lemma length_escapeSpec: "length (escapeSpec tbl s) = length s + 4 * countSpec tbl s"
  by (induction s) auto

lemma escapeSpec_id: "countSpec tbl s = 0 \<Longrightarrow> escapeSpec tbl s = s"
  by (induction s) (auto split: if_splits)

lemma firstRef_None_escapeSpec: "firstRef s = None \<Longrightarrow> escapeSpec tbl s = s"
  by (induction s) (auto simp: ambiguousHead_def split: option.splits)

lemma firstRef_None_countSpec: "firstRef s = None \<Longrightarrow> countSpec tbl s = 0"
  by (induction s) (auto simp: ambiguousHead_def split: option.splits)

lemma firstRef_Some_escapeSpec:
  "firstRef s = Some (k, n) \<Longrightarrow>
   escapeSpec tbl s =
     take k s @ (if IsCharacterReferenceName tbl n then ''&'' else ''&amp;'') @ n @ '';''
     @ escapeSpec tbl (drop (k + length n + 2) s)"
proof (induction s arbitrary: k)
  case Nil
  then show ?case by simp
next
  case (Cons c r)
  show ?case
  proof (cases "refName (c # r)")
    case (Some m)
    then have k: "k = 0" "m = n" using Cons.prems by simp_all
    from refName_Some_D[OF Some] k
    have c: "c = CHR ''&''" and r: "r = n @ CHR '';'' # drop (length n + 1) r" and al: "list_all alnum n"
      by simp_all
    have "escapeSpec tbl r = n @ CHR '';'' # escapeSpec tbl (drop (length n + 1) r)"
      by (subst r) (simp add: escapeSpec_alnum_run[OF al])
    then show ?thesis using Some k c by (simp add: ambiguousHead_def)
  next
    case None
    then obtain k' where k': "k = Suc k'" "firstRef r = Some (k', n)"
      using Cons.prems by auto
    show ?thesis using Cons.IH[OF k'(2)] None k'(1) by (simp add: ambiguousHead_def)
  qed
qed

lemma firstRef_Some_countSpec:
  "firstRef s = Some (k, n) \<Longrightarrow>
   countSpec tbl s =
     (if IsCharacterReferenceName tbl n then 0 else 1) + countSpec tbl (drop (k + length n + 2) s)"
proof (induction s arbitrary: k)
  case Nil
  then show ?case by simp
next
  case (Cons c r)
  show ?case
  proof (cases "refName (c # r)")
    case (Some m)
    then have k: "k = 0" "m = n" using Cons.prems by simp_all
    from refName_Some_D[OF Some] k
    have c: "c = CHR ''&''" and r: "r = n @ CHR '';'' # drop (length n + 1) r" and al: "list_all alnum n"
      by simp_all
    have "countSpec tbl r = countSpec tbl (drop (length n + 1) r)"
      by (subst r) (simp add: countSpec_alnum_run[OF al])
    then show ?thesis using Some k c by (simp add: ambiguousHead_def)
  next
    case None
    then obtain k' where k': "k = Suc k'" "firstRef r = Some (k', n)"
      using Cons.prems by auto
    show ?thesis using Cons.IH[OF k'(2)] None k'(1) by (simp add: ambiguousHead_def)
  qed
qed

lemma slice_nat:
  "slice s (int a) (int b) =
     (if a \<le> b \<and> b \<le> length s then Inr (take (b - a) (drop a s)) else Inl SliceBoundsOutOfRange)"
  by (auto simp: slice_def nat_diff_distrib')

lemma sliceFrom_nat:
  "sliceFrom s (int a) = (if a \<le> length s then Inr (drop a s) else Inl SliceBoundsOutOfRange)"
  by (auto simp: sliceFrom_def slice_nat)

lemma copyInto_nat:
  "copyInto b (int d) src =
     (if d \<le> length b then
        Inr (int (min (length b - d) (length src)),
             take d b @ take (min (length b - d) (length src)) src
             @ drop (d + min (length b - d) (length src)) b)
      else Inl SliceBoundsOutOfRange)"
  by (simp add: copyInto_def Let_def)

lemma countLoop_correct:
  assumes "Value scanner = val" "LastIndex scanner = int L - 1"
  shows "\<exists>scanner'. countLoop tbl scanner c = Inr (c + int (countSpec tbl (drop L val)), scanner')
           \<and> Value scanner' = val"
  using assms
proof (induction "length val - L" arbitrary: L scanner c rule: less_induct)
  case less
  have li: "- 1 \<le> LastIndex scanner" and f: "nat (LastIndex scanner + 1) = L"
    using less.prems by simp_all
  show ?case
  proof (cases "firstRef (drop L val)")
    case None
    then show ?thesis
      using less.prems f
      by (subst countLoop.simps) (simp add: Next_char[OF li] firstRef_None_countSpec)
  next
    case (Some p)
    obtain k n where p: "p = (k, n)" by (cases p)
    note fr = Some[unfolded p]
    define L' where "L' = L + k + length n + 2"
    define scanner' where "scanner' = scanner\<lparr>LastIndex := int (L + k + 1 + length n)\<rparr>"
    have nx: "Next scanner = Inr ((n, int (L + k)), scanner')"
      using fr less.prems f by (simp add: Next_char[OF li] scanner'_def)
    have bound: "L' \<le> length val"
      using firstRef_Some_D(4)[OF fr] by (simp add: L'_def)
    then have dec: "length val - L' < length val - L" by (simp add: L'_def)
    have sc': "Value scanner' = val" "LastIndex scanner' = int L' - 1"
      using less.prems by (simp_all add: scanner'_def L'_def)
    have cs: "countSpec tbl (drop L val) =
       (if IsCharacterReferenceName tbl n then 0 else 1) + countSpec tbl (drop L' val)"
      using firstRef_Some_countSpec[OF fr, of tbl] by (simp add: L'_def add.commute add.left_commute)
    have ne: "int (L + k) \<noteq> - 1" by simp
    show ?thesis
    proof (cases "IsCharacterReferenceName tbl n")
      case True
      from less.hyps[OF dec sc', of c] obtain s2 where
        "countLoop tbl scanner' c = Inr (c + int (countSpec tbl (drop L' val)), s2)" "Value s2 = val" by blast
      then show ?thesis using True cs nx
        by (subst countLoop.simps) simp
    next
      case False
      from less.hyps[OF dec sc', of "c + 1"] obtain s2 where
        "countLoop tbl scanner' (c + 1) = Inr (c + 1 + int (countSpec tbl (drop L' val)), s2)" "Value s2 = val" by blast
      then show ?thesis using False cs nx
        by (subst countLoop.simps) simp
    qed
  qed
qed

lemma take_span:
  assumes "s \<le> L" 
  shows "take (L + m - s) (drop s val) = take (L - s) (drop s val) @ take m (drop L val)"
proof -
  have "L + m - s = (L - s) + m" using assms by simp
  then have "take (L + m - s) (drop s val) = take (L - s) (drop s val) @ take m (drop (L - s) (drop s val))"
    by (simp add: take_add)
  then show ?thesis using assms by simp
qed

lemma copyInto_fits:
  assumes "d + length src \<le> length b"
  shows "copyInto b (int d) src = Inr (int (length src), take d b @ src @ drop (d + length src) b)"
proof -
  have "min (length b - d) (length src) = length src" using assms by simp
  then show ?thesis using assms by (simp add: copyInto_nat)
qed

lemma copyInto_twice:
  assumes "d + length x + length y \<le> length b"
  shows "copyInto b (int d) x = Inr (int (length x), take d b @ x @ drop (d + length x) b)"
    and "copyInto (take d b @ x @ drop (d + length x) b) (int d + int (length x)) y
         = Inr (int (length y), take d b @ x @ y @ drop (d + length x + length y) b)"
proof -
  show "copyInto b (int d) x = Inr (int (length x), take d b @ x @ drop (d + length x) b)"
    using assms by (intro copyInto_fits) simp
  define b1 where "b1 = take d b @ x @ drop (d + length x) b"
  have l1: "length b1 = length b" using assms by (simp add: b1_def)
  have t1: "take (d + length x) b1 = take d b @ x" using assms by (simp add: b1_def)
  have d1: "drop (d + length x + length y) b1 = drop (d + length x + length y) b"
    using assms by (simp add: b1_def add.commute)
  have "copyInto b1 (int (d + length x)) y
      = Inr (int (length y), take (d + length x) b1 @ y @ drop (d + length x + length y) b1)"
    using assms l1 by (intro copyInto_fits) simp
  then show "copyInto (take d b @ x @ drop (d + length x) b) (int d + int (length x)) y
         = Inr (int (length y), take d b @ x @ y @ drop (d + length x + length y) b)"
    unfolding t1 d1 by (simp add: b1_def)
qed

lemma fillLoop_correct:
  assumes "Value scanner = val" "LastIndex scanner = int L - 1" "s \<le> L" "L \<le> length val"
    "length b = d + (L - s) + length (escapeSpec tbl (drop L val))"
  shows "fillLoop tbl val scanner b (int d) (int s) =
    Inr (take d b @ take (L - s) (drop s val) @ escapeSpec tbl (drop L val))"
  using assms
proof (induction "length val - L" arbitrary: L scanner b d s rule: less_induct)
  case less
  have li: "- 1 \<le> LastIndex scanner" and f: "nat (LastIndex scanner + 1) = L"
    using less.prems by simp_all
  note sL = \<open>s \<le> L\<close> and Ll = \<open>L \<le> length val\<close>
  note lb = \<open>length b = d + (L - s) + length (escapeSpec tbl (drop L val))\<close>
  show ?case
  proof (cases "firstRef (drop L val)")
    case None
    have nx: "Next scanner = Inr (([], - 1), scanner\<lparr>LastIndex := int (length val)\<rparr>)"
      using None less.prems(1) f by (simp add: Next_char[OF li])
    have esc: "escapeSpec tbl (drop L val) = drop L val"
      using None by (rule firstRef_None_escapeSpec)
    have lb': "length b - d = length val - s" using lb esc sL Ll by simp
    have dl: "d \<le> length b" using lb by simp
    have "take (L - s) (drop s val) @ drop L val = drop s val"
      using take_span[OF sL, of "length val - L" val] Ll sL by simp
    then show ?thesis
      using nx esc lb' dl sL Ll
      by (subst fillLoop.simps) (simp add: sliceFrom_nat copyInto_nat)
  next
    case (Some p)
    obtain k n where p: "p = (k, n)" by (cases p)
    note fr = Some[unfolded p]
    define L' where "L' = L + k + length n + 2"
    define scanner' where "scanner' = scanner\<lparr>LastIndex := int (L + k + 1 + length n)\<rparr>"
    have nx: "Next scanner = Inr ((n, int (L + k)), scanner')"
      using fr less.prems(1) f by (simp add: Next_char[OF li] scanner'_def)
    have bound: "L' \<le> length val"
      using firstRef_Some_D(4)[OF fr] by (simp add: L'_def)
    then have dec: "length val - L' < length val - L" by (simp add: L'_def)
    have sc': "Value scanner' = val" "LastIndex scanner' = int L' - 1"
      using less.prems(1) by (simp_all add: scanner'_def L'_def)
    have dk: "drop (L + k) val = CHR ''&'' # n @ CHR '';'' # drop L' val"
      using firstRef_Some_D(3)[OF fr] by (simp add: L'_def add.commute add.left_commute)
    have dk1: "drop (L + k + 1) val = n @ CHR '';'' # drop L' val"
      using dk by (metis Suc_eq_plus1 drop_Suc list.sel(3) tl_drop)
    have esc: "escapeSpec tbl (drop L val) =
        take k (drop L val) @ (if IsCharacterReferenceName tbl n then ''&'' else ''&amp;'') @ n @ '';''
        @ escapeSpec tbl (drop L' val)"
      using firstRef_Some_escapeSpec[OF fr, of tbl] by (simp add: L'_def add.commute add.left_commute)
    have lk: "length (take k (drop L val)) = k" using bound by (simp add: L'_def)
    have ne: "int (L + k) \<noteq> - 1" by simp
    show ?thesis
    proof (cases "IsCharacterReferenceName tbl n")
      case True
      have lb2: "length b = d + (L' - s) + length (escapeSpec tbl (drop L' val))"
        using lb sL lk unfolding esc by (simp add: True L'_def)
      have sL': "s \<le> L'" using sL by (simp add: L'_def)
      have t: "take (L' - s) (drop s val) = take (L - s) (drop s val) @ take k (drop L val) @ CHR ''&'' # n @ '';''"
      proof -
        have "take (L' - s) (drop s val) = take (L - s) (drop s val) @ take (k + (length n + 2)) (drop L val)"
          using take_span[OF sL, of "k + (length n + 2)" val] by (simp add: L'_def add.assoc)
        also have "take (k + (length n + 2)) (drop L val) = take k (drop L val) @ take (length n + 2) (drop (L + k) val)"
          using take_add[of k "length n + 2" "drop L val"] by (simp add: add.commute)
        also have "take (length n + 2) (drop (L + k) val) = CHR ''&'' # n @ '';''"
          unfolding dk by simp
        finally show ?thesis .
      qed
      have "fillLoop tbl val scanner b (int d) (int s) = fillLoop tbl val scanner' b (int d) (int s)"
        using nx True by (subst fillLoop.simps) simp
      also have "\<dots> = Inr (take d b @ take (L' - s) (drop s val) @ escapeSpec tbl (drop L' val))"
        by (rule less.hyps[OF dec sc' sL' bound lb2])
      finally show ?thesis unfolding t esc using True by simp
    next
      case False
      define seg where "seg = take (L + k - s) (drop s val)"
      have lseg: "length seg = L + k - s" using bound sL by (simp add: seg_def L'_def)
      have segeq: "seg = take (L - s) (drop s val) @ take k (drop L val)"
        unfolding seg_def by (rule take_span[OF sL])
      have lA: "length htmlAmp = 5" by (simp add: htmlAmp_def)
      have lbd: "length b = d + length seg + length htmlAmp + (length n + 1) + length (escapeSpec tbl (drop L' val))"
        using lb sL lk lseg lA unfolding esc by (simp add: False)
      have sl: "slice val (int s) (int (L + k)) = Inr seg"
        using slice_nat[of val s "L + k"] sL bound by (simp add: seg_def L'_def)
      have fit: "d + length seg + length htmlAmp \<le> length b" using lbd by simp
      note cc = copyInto_twice[OF fit]
      define b2 where "b2 = take d b @ seg @ htmlAmp @ drop (d + length seg + length htmlAmp) b"
      have lb2: "length b2 = (d + length seg + length htmlAmp) + (L' - (L + k + 1)) + length (escapeSpec tbl (drop L' val))"
        using lbd by (simp add: b2_def L'_def)
      have sL': "L + k + 1 \<le> L'" by (simp add: L'_def)
      have tb2: "take (d + length seg + length htmlAmp) b2 = take d b @ seg @ ''&amp;''"
        using fit by (simp add: b2_def htmlAmp_def)
      have t: "take (L' - (L + k + 1)) (drop (L + k + 1) val) = n @ '';''"
        unfolding dk1 by (simp add: L'_def)
      have "fillLoop tbl val scanner b (int d) (int s)
          = fillLoop tbl val scanner' b2 (int d + int (length seg) + int (length htmlAmp)) (int (L + k) + 1)"
        using nx False sl cc by (subst fillLoop.simps) (simp add: b2_def)
      also have "\<dots> = fillLoop tbl val scanner' b2 (int (d + length seg + length htmlAmp)) (int (L + k + 1))"
        by (simp add: add.commute)
      also have "\<dots> = Inr (take (d + length seg + length htmlAmp) b2 @ take (L' - (L + k + 1)) (drop (L + k + 1) val)
            @ escapeSpec tbl (drop L' val))"
        by (rule less.hyps[OF dec sc' sL' bound lb2])
      finally have "fillLoop tbl val scanner b (int d) (int s)
          = Inr (take d b @ seg @ ''&amp;'' @ n @ '';'' @ escapeSpec tbl (drop L' val))"
        unfolding tb2 t by simp
      then show ?thesis unfolding esc segeq using False by simp
    qed
  qed
qed

lemma escapeBuffer_correct:
  "escapeAmbiguousAmpersandsBuffer tbl val =
     Inr (if countSpec tbl val = 0 then None else Some (escapeSpec tbl val))"
proof -
  define sc0 where "sc0 = \<lparr>Value = val, LastIndex = - 1\<rparr>"
  have "\<exists>scanner'. countLoop tbl sc0 0 = Inr (0 + int (countSpec tbl (drop 0 val)), scanner')
      \<and> Value scanner' = val"
    by (rule countLoop_correct) (simp_all add: sc0_def)
  then obtain sc1 where c: "countLoop tbl sc0 0 = Inr (int (countSpec tbl val), sc1)"
    and v1: "Value sc1 = val"
    by auto
  show ?thesis
  proof (cases "countSpec tbl val = 0")
    case True
    then show ?thesis using c
      by (simp add: escapeAmbiguousAmpersandsBuffer_def sc0_def[symmetric])
  next
    case False
    define fl where "fl = length val + 4 * countSpec tbl val"
    have flen: "int (length val) - int (countSpec tbl val) + int (countSpec tbl val) * int (length htmlAmp) = int fl"
      by (simp add: htmlAmp_def fl_def)
    have mk: "makeBytes (int fl) = Inr (replicate fl (CHR 0x00))"
      by (simp add: makeBytes_def)
    have "fillLoop tbl val (Reset sc1) (replicate fl (CHR 0x00)) (int 0) (int 0)
        = Inr (take 0 (replicate fl (CHR 0x00)) @ take (0 - 0) (drop 0 val) @ escapeSpec tbl (drop 0 val))"
      by (rule fillLoop_correct) (simp_all add: Reset_def fl_def length_escapeSpec v1)
    then have "fillLoop tbl val (Reset sc1) (replicate fl (CHR 0x00)) 0 0 = Inr (escapeSpec tbl val)"
      by (simp add: Reset_def)
    then show ?thesis using c False flen mk
      by (simp add: escapeAmbiguousAmpersandsBuffer_def sc0_def[symmetric] Let_def)
  qed
qed


lemma IndexRune_ge: "- 1 \<le> IndexRune s r"
  by (induction s) (auto simp: Let_def)

lemma IndexRune_none: "IndexRune s r = - 1 \<longleftrightarrow> r \<notin> set s"
proof (induction s)
  case Nil
  then show ?case by simp
next
  case (Cons c s)
  have "IndexRune s r + 1 \<noteq> - 1" using IndexRune_ge[of s r] by simp
  then show ?case using Cons by (auto simp: Let_def)
qed

lemma IndexRune_first:
  "r \<in> set s \<Longrightarrow> \<exists>k. IndexRune s r = int k \<and> k < length s \<and> s ! k = r \<and> (\<forall>m<k. s ! m \<noteq> r)"
proof (induction s)
  case Nil
  then show ?case by simp
next
  case (Cons c s)
  show ?case
  proof (cases "c = r")
    case True
    then show ?thesis by (intro exI[of _ 0]) simp
  next
    case False
    then have "r \<in> set s" using Cons.prems by simp
    from Cons.IH[OF this] obtain k where
      k: "IndexRune s r = int k" "k < length s" "s ! k = r" "\<forall>m<k. s ! m \<noteq> r" by blast
    show ?thesis
      using k False by (intro exI[of _ "Suc k"]) (auto simp: Let_def nth_Cons')
  qed
qed

lemma refName_drop_D:
  assumes "refName (drop k val) = Some n"
  shows "k + 3 \<le> length val" "val ! k = CHR ''&''"
proof -
  from refName_Some_D[OF assms]
  have n: "n \<noteq> []" and d: "drop k val = CHR ''&'' # n @ CHR '';'' # drop (length n + 2) (drop k val)"
    by simp_all
  have "length (drop k val) \<ge> length n + 2" by (subst d) simp
  moreover have "length n \<ge> 1" using n by (cases n) simp_all
  ultimately show "k + 3 \<le> length val" by simp
  then have "k < length val" by simp
  then show "val ! k = CHR ''&''" using d by (metis nth_via_drop)
qed

lemma no_ref_early:
  assumes "int (length val) < 3 \<or> IndexRune val CHR ''&'' = - 1
           \<or> IndexRune val CHR ''&'' \<ge> int (length val) - 2"
  shows "firstRef val = None"
proof -
  have "refName (drop k val) = None" for k
  proof (rule ccontr)
    assume "refName (drop k val) \<noteq> None"
    then obtain n where n: "refName (drop k val) = Some n" by auto
    note D = refName_drop_D[OF n]
    have k: "k < length val" using D(1) by simp
    then have mem: "CHR ''&'' \<in> set val" using D(2) by (metis nth_mem)
    from IndexRune_first[OF mem] obtain k0 where
      k0: "IndexRune val CHR ''&'' = int k0" "\<forall>m<k0. val ! m \<noteq> CHR ''&''" by blast
    have "k0 \<le> k" using k0(2) D(2) by (meson not_le)
    then show False using assms D(1) k0(1) by auto
  qed
  then show ?thesis by (simp add: firstRef_None_iff)
qed

lemma EscapeAmbiguousAmpersands_correct:
  "EscapeAmbiguousAmpersands tbl val = Inr (escapeSpec tbl val)"
proof (cases "int (length val) < 3 \<or> IndexRune val CHR ''&'' = - 1
           \<or> IndexRune val CHR ''&'' \<ge> int (length val) - 2")
  case True
  from no_ref_early[OF this] have "escapeSpec tbl val = val"
    by (rule firstRef_None_escapeSpec)
  then show ?thesis using True
    by (auto simp: EscapeAmbiguousAmpersands_def Let_def unicodeAmpersand_def)
next
  case False
  then show ?thesis
    by (auto simp: EscapeAmbiguousAmpersands_def Let_def unicodeAmpersand_def
        escapeBuffer_correct escapeSpec_id)
qed

lemma ambiguousAt_lt: "ambiguousAt tbl val i \<Longrightarrow> i < length val"
  using refName_drop_D(1)[of i val]
  by (auto simp: ambiguousAt_def refAt_iff_refName)

lemma escapeSpec_index:
  "escapeSpec tbl (drop k val) =
     concat (map (\<lambda>i. if ambiguousAt tbl val i then ''&amp;'' else [val ! i]) [k..<length val])"
proof (induction "length val - k" arbitrary: k)
  case 0
  then show ?case by simp
next
  case (Suc m)
  then have lt: "k < length val" and m: "m = length val - Suc k" by simp_all
  have d: "drop k val = val ! k # drop (Suc k) val"
    using lt by (simp add: Cons_nth_drop_Suc)
  have "escapeSpec tbl (drop k val) =
      (if ambiguousAt tbl val k then ''&amp;'' else [val ! k]) @ escapeSpec tbl (drop (Suc k) val)"
    unfolding ambiguousAt_iff by (subst d, subst escapeSpec.simps, subst d[symmetric]) simp
  then show ?case using Suc.hyps(1)[OF m] lt by (simp add: upt_conv_Cons)
qed

lemma countSpec_index:
  "countSpec tbl (drop k val) = length (filter (ambiguousAt tbl val) [k..<length val])"
proof (induction "length val - k" arbitrary: k)
  case 0
  then show ?case by simp
next
  case (Suc m)
  then have lt: "k < length val" and m: "m = length val - Suc k" by simp_all
  have d: "drop k val = val ! k # drop (Suc k) val"
    using lt by (simp add: Cons_nth_drop_Suc)
  have "countSpec tbl (drop k val) =
      (if ambiguousAt tbl val k then 1 else 0) + countSpec tbl (drop (Suc k) val)"
    unfolding ambiguousAt_iff by (subst d, subst countSpec.simps, subst d[symmetric]) simp
  then show ?case using Suc.hyps(1)[OF m] lt by (simp add: upt_conv_Cons)
qed

lemma countSpec_card: "countSpec tbl val = card {i. ambiguousAt tbl val i}"
proof -
  have "{i. ambiguousAt tbl val i} = set (filter (ambiguousAt tbl val) [0..<length val])"
    using ambiguousAt_lt by auto
  moreover have "card (set (filter (ambiguousAt tbl val) [0..<length val]))
      = length (filter (ambiguousAt tbl val) [0..<length val])"
    by (rule distinct_card) simp
  ultimately have "card {i. ambiguousAt tbl val i} = length (filter (ambiguousAt tbl val) [0..<length val])"
    by (simp only:)
  then show ?thesis using countSpec_index[of tbl 0 val] by simp
qed

lemma nameEnd_escapeSpec: "nameEnd (escapeSpec tbl s) = nameEnd s"
proof (induction s)
  case Nil
  then show ?case by simp
next
  case (Cons c r)
  show ?case
  proof (cases "c = CHR ''&''")
    case True
    then show ?thesis by (simp add: alnum_def less_eq_char_def)
  next
    case False
    then show ?thesis using Cons.IH by simp
  qed
qed

lemma take_nameEnd_escapeSpec:
  assumes "nameEnd s = Some k"
  shows "take k (escapeSpec tbl s) = take k s"
proof -
  from nameEnd_Some_D[OF assms]
  have al: "list_all alnum (take k s)" and s: "s = take k s @ CHR '';'' # drop (Suc k) s"
    by simp_all
  have lt: "k < length s" using assms by (rule nameEnd_lt)
  have "escapeSpec tbl s = take k s @ escapeSpec tbl (CHR '';'' # drop (Suc k) s)"
    by (subst s) (rule escapeSpec_alnum_run[OF al])
  then show ?thesis using lt by simp
qed

lemma refName_escapeSpec: "refName (c # escapeSpec tbl r) = refName (c # r)"
  by (simp add: nameEnd_escapeSpec take_nameEnd_escapeSpec split: option.splits)

lemma ambiguousHead_escapeSpec:
  "ambiguousHead tbl (c # escapeSpec tbl r) = ambiguousHead tbl (c # r)"
  by (simp only: ambiguousHead_def refName_escapeSpec)

lemma escapeSpec_amp:
  assumes "IsCharacterReferenceName tbl ''amp''"
  shows "escapeSpec tbl (''&amp;'' @ t) = ''&amp;'' @ escapeSpec tbl t"
  using assms by (simp add: ambiguousHead_def alnum_def less_eq_char_def)

lemma escapeSpec_idem:
  assumes "IsCharacterReferenceName tbl ''amp''"
  shows "escapeSpec tbl (escapeSpec tbl s) = escapeSpec tbl s"
proof (induction s)
  case Nil
  then show ?case by simp
next
  case (Cons c r)
  show ?case
  proof (cases "ambiguousHead tbl (c # r)")
    case True
    then have "escapeSpec tbl (c # r) = ''&amp;'' @ escapeSpec tbl r" by simp
    then show ?thesis using escapeSpec_amp[OF assms, of "escapeSpec tbl r"] Cons.IH by simp
  next
    case False
    then have e: "escapeSpec tbl (c # r) = c # escapeSpec tbl r" by simp
    show ?thesis unfolding e using False Cons.IH
      by (simp add: ambiguousHead_escapeSpec del: ambiguousHead_not_amp)
  qed
qed

lemma hasLoop_correct:
  assumes "Value scanner = val" "LastIndex scanner = int L - 1"
  shows "hasLoop tbl scanner = Inr (0 < countSpec tbl (drop L val))"
  using assms
proof (induction "length val - L" arbitrary: L scanner rule: less_induct)
  case less
  have li: "- 1 \<le> LastIndex scanner" and f: "nat (LastIndex scanner + 1) = L"
    using less.prems by simp_all
  show ?case
  proof (cases "firstRef (drop L val)")
    case None
    then show ?thesis
      using less.prems f
      by (subst hasLoop.simps) (simp add: Next_char[OF li] firstRef_None_countSpec)
  next
    case (Some p)
    obtain k n where p: "p = (k, n)" by (cases p)
    note fr = Some[unfolded p]
    define L' where "L' = L + k + length n + 2"
    define scanner' where "scanner' = scanner\<lparr>LastIndex := int (L + k + 1 + length n)\<rparr>"
    have nx: "Next scanner = Inr ((n, int (L + k)), scanner')"
      using fr less.prems f by (simp add: Next_char[OF li] scanner'_def)
    have bound: "L' \<le> length val"
      using firstRef_Some_D(4)[OF fr] by (simp add: L'_def)
    then have dec: "length val - L' < length val - L" by (simp add: L'_def)
    have sc': "Value scanner' = val" "LastIndex scanner' = int L' - 1"
      using less.prems by (simp_all add: scanner'_def L'_def)
    have cs: "countSpec tbl (drop L val) =
       (if IsCharacterReferenceName tbl n then 0 else 1) + countSpec tbl (drop L' val)"
      using firstRef_Some_countSpec[OF fr, of tbl] by (simp add: L'_def add.commute add.left_commute)
    show ?thesis
      using less.hyps[OF dec sc'] cs nx
      by (subst hasLoop.simps) simp
  qed
qed

lemma HasAmbiguousAmpersand_correct:
  "HasAmbiguousAmpersand tbl val = Inr (\<exists>i. ambiguousAt tbl val i)"
proof -
  have "HasAmbiguousAmpersand tbl val = Inr (0 < countSpec tbl val)"
    using hasLoop_correct[of "\<lparr>Value = val, LastIndex = - 1\<rparr>" val 0 tbl]
    by (simp add: HasAmbiguousAmpersand_def)
  moreover have "0 < countSpec tbl val \<longleftrightarrow> (\<exists>i. ambiguousAt tbl val i)"
  proof -
    have fin: "finite {i. ambiguousAt tbl val i}"
      using ambiguousAt_lt by (metis (mono_tags, lifting) finite_nat_set_iff_bounded mem_Collect_eq)
    show ?thesis unfolding countSpec_card using fin
      by (auto simp: card_gt_0_iff)
  qed
  ultimately show ?thesis by simp
qed

section \<open>Claims about the scanner and the ampersand escaper\<close>

text \<open>
  Claim C1. For every table and every input text, \<^verbatim>\<open>EscapeAmbiguousAmpersands\<close> returns
  (without a panic) the text in which the byte at every index that holds an ambiguous
  ampersand is replaced by the five bytes \<open>&amp;\<close> and every other byte, the names and
  semicolons included, is copied as it is. The length of the result is the length of
  the input plus four times the number of ambiguous ampersands.
\<close>

theorem C1_escape_replaces_only_ambiguous_ampersands:
  "EscapeAmbiguousAmpersands tbl val =
     Inr (concat (map (\<lambda>i. if ambiguousAt tbl val i then ''&amp;'' else [val ! i]) [0..<length val]))
   \<and> (\<exists>out. EscapeAmbiguousAmpersands tbl val = Inr out
          \<and> length out = length val + 4 * card {i. ambiguousAt tbl val i})"
proof -
  have "escapeSpec tbl val =
      concat (map (\<lambda>i. if ambiguousAt tbl val i then ''&amp;'' else [val ! i]) [0..<length val])"
    using escapeSpec_index[of tbl 0 val] by simp
  moreover have "length (escapeSpec tbl val) = length val + 4 * card {i. ambiguousAt tbl val i}"
    by (simp add: length_escapeSpec countSpec_card)
  ultimately show ?thesis
    by (simp add: EscapeAmbiguousAmpersands_correct)
qed

theorem C1_witness:
  "EscapeAmbiguousAmpersands sampleTable ''Who &writes; &amp; this?''
     = Inr ''Who &amp;writes; &amp; this?''
   \<and> card {i. ambiguousAt sampleTable ''Who &writes; &amp; this?'' i} = 1"
proof -
  let ?v = "''Who &writes; &amp; this?''"
  note t = C1_escape_replaces_only_ambiguous_ampersands[of sampleTable ?v]
  have e: "concat (map (\<lambda>i. if ambiguousAt sampleTable ?v i then ''&amp;'' else [?v ! i]) [0..<length ?v])
      = ''Who &amp;writes; &amp; this?''"
    by (simp add: ambiguousAt_iff ambiguousHead_def upt_rec[of _ "numeral _"] upt_rec[of _ "Suc _"] alnum_def less_eq_char_def
        sampleTable_def IsCharacterReferenceName_def)
  from t e have 1: "EscapeAmbiguousAmpersands sampleTable ?v = Inr ''Who &amp;writes; &amp; this?''"
    by simp
  from t 1 have "card {i. ambiguousAt sampleTable ?v i} = 1" by auto
  with 1 show ?thesis by simp
qed

text \<open>
  Claim C2. \<^verbatim>\<open>HasAmbiguousAmpersand\<close> returns true exactly when some index of the text
  holds a candidate reference (an ampersand, one or more ASCII letters or digits, a
  semicolon) whose name is not in the table, and false otherwise, in particular when
  the text has no candidate at all. For every non-empty name \<open>n\<close> of letters and digits
  that is not in the table, the text \<open>&n;\<close> is reported.
\<close>

theorem C2_detects_ambiguous_ampersand:
  "HasAmbiguousAmpersand tbl val
     = Inr (\<exists>i name. refAt val i name \<and> \<not> IsCharacterReferenceName tbl name)
   \<and> (n \<noteq> [] \<and> list_all alnum n \<and> \<not> IsCharacterReferenceName tbl n
        \<longrightarrow> HasAmbiguousAmpersand tbl (''&'' @ n @ '';'') = Inr True)"
proof -
  have 1: "HasAmbiguousAmpersand tbl v
     = Inr (\<exists>i name. refAt v i name \<and> \<not> IsCharacterReferenceName tbl name)" for v
    by (simp add: HasAmbiguousAmpersand_correct ambiguousAt_def)
  have "refAt (''&'' @ n @ '';'') 0 n" if "n \<noteq> []" "list_all alnum n"
    using that by (simp add: refAt_def)
  then show ?thesis unfolding 1 by auto
qed

theorem C2_witness:
  "''dan'' \<noteq> [] \<and> list_all alnum ''dan'' \<and> \<not> IsCharacterReferenceName sampleTable ''dan''
   \<and> HasAmbiguousAmpersand sampleTable ''&dan;'' = Inr True"
  using C2_detects_ambiguous_ampersand[of sampleTable "''&dan;''" "''dan''", THEN conjunct2]
  by (simp add: alnum_def less_eq_char_def sampleTable_def IsCharacterReferenceName_def)





text \<open>
  The inner loop fails when it meets a byte that is neither a letter or digit nor a
  semicolon.
\<close>

lemma innerLoop_fail:
  assumes "j \<le> k" "k < length val" "\<forall>m. j \<le> m \<and> m < k \<longrightarrow> alnum (val ! m)"
    "\<not> alnum (val ! k)" "val ! k \<noteq> CHR '';''"
  shows "innerLoop val j = None"
  using assms
proof (induction "k - j" arbitrary: j)
  case 0
  then have "j = k" by simp
  then show ?case using 0 by (subst innerLoop_step) simp
next
  case (Suc d)
  then have jk: "j < k" by simp
  then have al: "alnum (val ! j)" using Suc.prems by simp
  then have ns: "val ! j \<noteq> CHR '';''" by auto
  have "innerLoop val (j + 1) = None"
    using Suc.hyps(1)[of "j + 1"] Suc.hyps(2) Suc.prems jk by simp
  then show ?case using al ns jk Suc.prems(2) by (subst innerLoop_step) simp
qed

text \<open>
  \<^verbatim>\<open>Next\<close> from a cursor one before index \<open>i\<close> is the outer loop started at \<open>i\<close>.
\<close>

lemma Next_from:
  "Next (scanner\<lparr>LastIndex := int i - 1\<rparr>) =
     (case outerLoop (Value scanner) i of
        Some (a, j) \<Rightarrow>
          Inr ((take (j - (a + 1)) (drop (a + 1) (Value scanner)), int a),
               scanner\<lparr>LastIndex := int j\<rparr>)
      | None \<Rightarrow> Inr (([], - 1), scanner\<lparr>LastIndex := int (length (Value scanner))\<rparr>))"
  by (simp add: Next_def Let_def split: option.splits)

lemma Next_same_search:
  assumes "outerLoop (Value scanner) i = outerLoop (Value scanner) (i + 1)"
  shows "Next (scanner\<lparr>LastIndex := int i - 1\<rparr>) = Next (scanner\<lparr>LastIndex := int i\<rparr>)"
proof -
  have "Next (scanner\<lparr>LastIndex := int i\<rparr>) = Next (scanner\<lparr>LastIndex := int (i + 1) - 1\<rparr>)"
    by simp
  then show ?thesis unfolding Next_from using assms by (simp only:)
qed

text \<open>
  Claim C4. In the outer loop of \<^verbatim>\<open>Next\<close>, an ampersand directly followed by a semicolon
  makes the search go on at the next index (a call of \<^verbatim>\<open>Next\<close> whose search starts at the
  ampersand returns what a call whose search starts one index later returns), and no
  match has an ampersand directly followed by a semicolon. When the bytes after an
  ampersand are letters and digits up to a byte that is neither a letter or digit nor
  a semicolon, the search also goes on at the index after the ampersand, so that a
  later match may start inside the failed candidate: on \<open>&this &is; also;\<close> the first
  call returns \<open>(is, 6)\<close>.
\<close>

theorem C4_skip_empty_name_and_resume_after_failure:
  "(i + 1 < length val \<and> val ! i = CHR ''&'' \<and> val ! (i + 1) = CHR '';''
      \<longrightarrow> outerLoop val i = outerLoop val (i + 1)
          \<and> Next \<lparr>Value = val, LastIndex = int i - 1\<rparr> = Next \<lparr>Value = val, LastIndex = int i\<rparr>)
   \<and> (outerLoop val f = Some (a, j)
      \<longrightarrow> val ! a = CHR ''&'' \<and> val ! (a + 1) \<noteq> CHR '';'' \<and> a + 1 < j)
   \<and> (i < k \<and> k < length val \<and> val ! i = CHR ''&''
        \<and> (\<forall>m. i < m \<and> m < k \<longrightarrow> alnum (val ! m)) \<and> \<not> alnum (val ! k) \<and> val ! k \<noteq> CHR '';''
      \<longrightarrow> outerLoop val i = outerLoop val (i + 1)
          \<and> Next \<lparr>Value = val, LastIndex = int i - 1\<rparr> = Next \<lparr>Value = val, LastIndex = int i\<rparr>)
   \<and> Next (NewNamedReferenceScanner ''&this &is; also;'')
        = Inr ((''is'', 6), \<lparr>Value = ''&this &is; also;'', LastIndex = 9\<rparr>)"
proof -
  have N: "Next \<lparr>Value = val, LastIndex = int i - 1\<rparr> = Next \<lparr>Value = val, LastIndex = int i\<rparr>"
    if "outerLoop val i = outerLoop val (i + 1)"
    using Next_same_search[of "\<lparr>Value = val, LastIndex = 0\<rparr>" i] that by simp
  have A: "outerLoop val i = outerLoop val (i + 1)"
    if "i + 1 < length val \<and> val ! i = CHR ''&'' \<and> val ! (i + 1) = CHR '';''"
    using that by (subst outerLoop_step) simp
  have B: "val ! a = CHR ''&'' \<and> val ! (a + 1) \<noteq> CHR '';'' \<and> a + 1 < j"
    if o: "outerLoop val f = Some (a, j)"
  proof -
    from o obtain k n where fr: "firstRef (drop f val) = Some (k, n)"
      and a: "a = f + k" and j: "j = f + k + 1 + length n"
      by (auto simp: outerLoop_char split: option.splits)
    note D = firstRef_Some_D[OF fr]
    obtain c n' where n: "n = c # n'" "alnum c" using D(1,2) by (cases n) auto
    have d: "drop a val = CHR ''&'' # c # n' @ CHR '';'' # drop (k + length n + 2) (drop f val)"
      using D(3) a n by (simp add: add.commute)
    have b: "a + 1 < length val" using D(4) a n by simp
    have "val ! (a + 0) = drop a val ! 0" using b by (intro nth_drop[symmetric]) simp
    then have 1: "val ! a = CHR ''&''" by (simp add: d)
    have "val ! (a + 1) = drop a val ! 1" using b by (intro nth_drop[symmetric]) simp
    then have "val ! (a + 1) = c" by (simp add: d)
    then have 2: "val ! (a + 1) \<noteq> CHR '';''" using n(2) by auto
    show ?thesis using 1 2 a j n by simp
  qed
  have C: "outerLoop val i = outerLoop val (i + 1)"
    if h: "i < k \<and> k < length val \<and> val ! i = CHR ''&''
        \<and> (\<forall>m. i < m \<and> m < k \<longrightarrow> alnum (val ! m)) \<and> \<not> alnum (val ! k) \<and> val ! k \<noteq> CHR '';''"
  proof -
    have "innerLoop val (i + 1) = None"
      using h by (intro innerLoop_fail[of _ k]) auto
    moreover have "val ! (i + 1) \<noteq> CHR '';''"
    proof (cases "i + 1 = k")
      case True
      then show ?thesis using h by simp
    next
      case False
      then have "alnum (val ! (i + 1))" using h by simp
      then show ?thesis by auto
    qed
    ultimately show ?thesis using h by (subst outerLoop_step) simp
  qed
  have D: "Next (NewNamedReferenceScanner ''&this &is; also;'')
        = Inr ((''is'', 6), \<lparr>Value = ''&this &is; also;'', LastIndex = 9\<rparr>)"
    by code_simp
  show ?thesis using A B C D N by blast
qed

theorem C4_witness:
  "outerLoop ''a&;&b;'' 1 = outerLoop ''a&;&b;'' 2
   \<and> outerLoop ''a&;&b;'' 0 = Some (3, 5)
   \<and> ''a&;&b;'' ! 3 = CHR ''&'' \<and> ''a&;&b;'' ! 4 \<noteq> CHR '';''
   \<and> outerLoop ''&this &is; also;'' 0 = outerLoop ''&this &is; also;'' 1
   \<and> outerLoop ''&this &is; also;'' 1 = Some (6, 9)"
proof -
  have 1: "outerLoop ''a&;&b;'' 1 = outerLoop ''a&;&b;'' 2"
    using C4_skip_empty_name_and_resume_after_failure[of 1 "''a&;&b;''", THEN conjunct1]
    by (simp add: numeral_2_eq_2)
  have 2: "outerLoop ''a&;&b;'' 0 = Some (3, 5)" by code_simp
  have 3: "''a&;&b;'' ! 3 = CHR ''&'' \<and> ''a&;&b;'' ! (3 + 1) \<noteq> CHR '';'' \<and> 3 + 1 < (5::nat)"
    using C4_skip_empty_name_and_resume_after_failure[of _ "''a&;&b;''" 0 3 5, THEN conjunct2, THEN conjunct1] 2
    by blast
  have h: "\<forall>m. 0 < m \<and> m < 5 \<longrightarrow> alnum (''&this &is; also;'' ! m)"
  proof (intro allI impI)
    fix m :: nat assume "0 < m \<and> m < 5"
    then have "m = 1 \<or> m = 2 \<or> m = 3 \<or> m = 4" by linarith
    then show "alnum (''&this &is; also;'' ! m)"
      by (auto simp: alnum_def less_eq_char_def)
  qed
  have 4: "outerLoop ''&this &is; also;'' 0 = outerLoop ''&this &is; also;'' 1"
    using C4_skip_empty_name_and_resume_after_failure[of 0 "''&this &is; also;''" _ _ _ 5,
        THEN conjunct2, THEN conjunct2, THEN conjunct1] h
    by (simp add: alnum_def less_eq_char_def)
  have 5: "outerLoop ''&this &is; also;'' 1 = Some (6, 9)" by code_simp
  show ?thesis using 1 2 3 4 5 by simp
qed

text \<open>
  Claim C5. When \<open>amp\<close> is in the table, escaping the result of
  \<^verbatim>\<open>EscapeAmbiguousAmpersands\<close> once more changes nothing.
\<close>

theorem C5_escape_idempotent:
  assumes "IsCharacterReferenceName tbl ''amp''"
  shows "\<exists>out. EscapeAmbiguousAmpersands tbl t = Inr out
            \<and> EscapeAmbiguousAmpersands tbl out = Inr out"
  using escapeSpec_idem[OF assms] by (simp add: EscapeAmbiguousAmpersands_correct)

theorem C5_witness:
  "IsCharacterReferenceName sampleTable ''amp''
   \<and> EscapeAmbiguousAmpersands sampleTable ''a &tuesday;'' = Inr ''a &amp;tuesday;''
   \<and> EscapeAmbiguousAmpersands sampleTable ''a &amp;tuesday;'' = Inr ''a &amp;tuesday;''"
proof -
  have a: "IsCharacterReferenceName sampleTable ''amp''"
    by (simp add: sampleTable_def IsCharacterReferenceName_def)
  have e: "EscapeAmbiguousAmpersands sampleTable ''a &tuesday;'' = Inr ''a &amp;tuesday;''"
    by code_simp
  from C5_escape_idempotent[OF a, of "''a &tuesday;''"] e
  have "EscapeAmbiguousAmpersands sampleTable ''a &amp;tuesday;'' = Inr ''a &amp;tuesday;''"
    by auto
  with a e show ?thesis by simp
qed

section \<open>Claims about the composite attribute escaper\<close>

lemma Replace_concat: "Replace s old new = concat (map (\<lambda>c. if c = old then new else [c]) s)"
  by (induction s) auto

lemma Replace_id: "old \<notin> set s \<Longrightarrow> Replace s old new = s"
  by (induction s) auto

lemma Replace_no_old: "old \<notin> set new \<Longrightarrow> old \<notin> set (Replace s old new)"
  by (induction s) auto

lemma quote_notin_escapeSpec: "CHR 0x22 \<notin> set s \<Longrightarrow> CHR 0x22 \<notin> set (escapeSpec tbl s)"
  by (induction s) auto

lemma EscapeAttributeValueDoubleQuoted_correct:
  "EscapeAttributeValueDoubleQuoted tbl val =
     Inr (Replace
           (if IndexRune val CHR ''&'' \<noteq> - 1 \<and> IndexRune val CHR ''&'' < IndexRune val CHR '';''
            then escapeSpec tbl val else val)
           (CHR 0x22) ''&#34;'')"
proof -
  have q: "IndexRune val (CHR 0x22) = - 1 \<Longrightarrow> Replace val (CHR 0x22) ''&#34;'' = val"
    "IndexRune val (CHR 0x22) = - 1 \<Longrightarrow> Replace (escapeSpec tbl val) (CHR 0x22) ''&#34;'' = escapeSpec tbl val"
    by (simp_all add: IndexRune_none Replace_id quote_notin_escapeSpec)
  show ?thesis
    using q
    by (auto simp: EscapeAttributeValueDoubleQuoted_def Let_def unicodeAmpersand_def
        unicodeDoubleQuote_def unicodeSemicolon_def htmlQuot_def escapeBuffer_correct escapeSpec_id)
qed

lemma semicolon_first:
  assumes "val = p @ CHR '';'' # rest" "CHR ''&'' \<notin> set p"
  shows "\<not> (IndexRune val CHR ''&'' \<noteq> - 1 \<and> IndexRune val CHR ''&'' < IndexRune val CHR '';'')"
proof
  assume h: "IndexRune val CHR ''&'' \<noteq> - 1 \<and> IndexRune val CHR ''&'' < IndexRune val CHR '';''"
  then have "CHR ''&'' \<in> set val" by (simp add: IndexRune_none)
  from IndexRune_first[OF this] obtain ka where
    ka: "IndexRune val CHR ''&'' = int ka" "ka < length val" "val ! ka = CHR ''&''" by blast
  have "CHR '';'' \<in> set val" using assms(1) by simp
  from IndexRune_first[OF this] obtain ks where
    ks: "IndexRune val CHR '';'' = int ks" "\<forall>m<ks. val ! m \<noteq> CHR '';''" by blast
  have "val ! length p = CHR '';''" using assms(1) by simp
  then have "ks \<le> length p" using ks(2) by (meson not_le)
  then have "ka < length p" using h ka(1) ks(1) by simp
  then have "val ! ka = p ! ka" using assms(1) by (simp add: nth_append)
  then have "CHR ''&'' \<in> set p" using ka(3) \<open>ka < length p\<close> by (metis nth_mem)
  then show False using assms(2) by simp
qed

text \<open>
  Claim C8. Unless the text has an ampersand and the index of its first ampersand is
  less than the index of its first semicolon, \<^verbatim>\<open>EscapeAttributeValueDoubleQuoted\<close>
  escapes no ampersand: the result is the input with only its double quotes replaced.
  This is so for every text whose first semicolon comes before its first ampersand and
  for every text without a semicolon, also when the text has an ambiguous ampersand:
  \<open>; &dan;\<close> is returned as it is although \<^verbatim>\<open>HasAmbiguousAmpersand\<close> reports it.
\<close>

theorem C8_ampersand_escaping_needs_ampersand_before_first_semicolon:
  "(\<not> (IndexRune val CHR ''&'' \<noteq> - 1 \<and> IndexRune val CHR ''&'' < IndexRune val CHR '';'')
      \<longrightarrow> EscapeAttributeValueDoubleQuoted tbl val
          = Inr (concat (map (\<lambda>c. if c = CHR 0x22 then ''&#34;'' else [c]) val)))
   \<and> ((\<exists>p rest. val = p @ CHR '';'' # rest \<and> CHR ''&'' \<notin> set p) \<or> CHR '';'' \<notin> set val
      \<longrightarrow> EscapeAttributeValueDoubleQuoted tbl val
          = Inr (concat (map (\<lambda>c. if c = CHR 0x22 then ''&#34;'' else [c]) val)))
   \<and> (\<not> IsCharacterReferenceName tbl ''dan''
      \<longrightarrow> HasAmbiguousAmpersand tbl ''; &dan;'' = Inr True
          \<and> EscapeAttributeValueDoubleQuoted tbl ''; &dan;'' = Inr ''; &dan;'')"
proof -
  have A: "EscapeAttributeValueDoubleQuoted tbl v
          = Inr (concat (map (\<lambda>c. if c = CHR 0x22 then ''&#34;'' else [c]) v))"
    if "\<not> (IndexRune v CHR ''&'' \<noteq> - 1 \<and> IndexRune v CHR ''&'' < IndexRune v CHR '';'')" for v
    using that by (auto simp: EscapeAttributeValueDoubleQuoted_correct Replace_concat)
  have B: "\<not> (IndexRune val CHR ''&'' \<noteq> - 1 \<and> IndexRune val CHR ''&'' < IndexRune val CHR '';'')"
    if "(\<exists>p rest. val = p @ CHR '';'' # rest \<and> CHR ''&'' \<notin> set p) \<or> CHR '';'' \<notin> set val"
  proof -
    from that show ?thesis
    proof
      assume "\<exists>p rest. val = p @ CHR '';'' # rest \<and> CHR ''&'' \<notin> set p"
      then show ?thesis using semicolon_first by blast
    next
      assume "CHR '';'' \<notin> set val"
      then have "IndexRune val CHR '';'' = - 1" by (simp add: IndexRune_none)
      then show ?thesis using IndexRune_ge[of val "CHR ''&''"] by auto
    qed
  qed
  have C: "HasAmbiguousAmpersand tbl ''; &dan;'' = Inr True"
    if "\<not> IsCharacterReferenceName tbl ''dan''"
  proof -
    have "refAt ''; &dan;'' 2 ''dan''" by (simp add: refAt_def alnum_def less_eq_char_def)
    then show ?thesis using that by (auto simp: HasAmbiguousAmpersand_correct ambiguousAt_def)
  qed
  have D: "EscapeAttributeValueDoubleQuoted tbl ''; &dan;'' = Inr ''; &dan;''"
  proof -
    have "IndexRune ''; &dan;'' CHR '';'' = 0" by simp
    then have "\<not> (IndexRune ''; &dan;'' CHR ''&'' \<noteq> - 1
        \<and> IndexRune ''; &dan;'' CHR ''&'' < IndexRune ''; &dan;'' CHR '';'')"
      using IndexRune_ge[of "''; &dan;''" "CHR ''&''"] by linarith
    from A[OF this] show ?thesis by simp
  qed
  show ?thesis using A[of val] B C D by blast
qed

theorem C8_witness:
  "\<not> IsCharacterReferenceName sampleTable ''dan''
   \<and> HasAmbiguousAmpersand sampleTable ''; &dan;'' = Inr True
   \<and> EscapeAttributeValueDoubleQuoted sampleTable ''; &dan;'' = Inr ''; &dan;''
   \<and> EscapeAttributeValueDoubleQuoted sampleTable ''&dan &dan;'' = Inr ''&dan &amp;dan;''"
proof -
  have a: "\<not> IsCharacterReferenceName sampleTable ''dan''"
    by (simp add: sampleTable_def IsCharacterReferenceName_def)
  have b: "EscapeAttributeValueDoubleQuoted sampleTable ''&dan &dan;'' = Inr ''&dan &amp;dan;''"
    by code_simp
  show ?thesis
    using C8_ampersand_escaping_needs_ampersand_before_first_semicolon[of "''; &dan;''" sampleTable] a b
    by simp
qed


text \<open>
  Claim C9. \<^verbatim>\<open>EscapeAttributeValueDoubleQuoted\<close> returns a text without an ampersand
  and without a double quote as it is. For every input the result is obtained from
  the input, or from the input with its ambiguous ampersands escaped, by replacing
  every double quote by \<open>&#34;\<close>, and it has no double quote. When \<open>dan\<close> is not in the
  table, \<open>&dan;"xxx"\<close> becomes \<open>&amp;dan;&#34;xxx&#34;\<close>.
\<close>

theorem C9_quotes_always_escaped:
  "(CHR ''&'' \<notin> set val \<and> CHR 0x22 \<notin> set val
      \<longrightarrow> EscapeAttributeValueDoubleQuoted tbl val = Inr val)
   \<and> (\<exists>pre out. (pre = val \<or> EscapeAmbiguousAmpersands tbl val = Inr pre)
        \<and> EscapeAttributeValueDoubleQuoted tbl val = Inr out
        \<and> out = concat (map (\<lambda>c. if c = CHR 0x22 then ''&#34;'' else [c]) pre)
        \<and> CHR 0x22 \<notin> set out)
   \<and> (\<not> IsCharacterReferenceName tbl ''dan''
      \<longrightarrow> EscapeAttributeValueDoubleQuoted tbl (''&dan;'' @ CHR 0x22 # ''xxx'' @ [CHR 0x22])
          = Inr ''&amp;dan;&#34;xxx&#34;'')"
proof -
  define pre where "pre =
    (if IndexRune val CHR ''&'' \<noteq> - 1 \<and> IndexRune val CHR ''&'' < IndexRune val CHR '';''
     then escapeSpec tbl val else val)"
  have r: "EscapeAttributeValueDoubleQuoted tbl val = Inr (Replace pre (CHR 0x22) ''&#34;'')"
    by (simp add: EscapeAttributeValueDoubleQuoted_correct pre_def)
  have A: "EscapeAttributeValueDoubleQuoted tbl val = Inr val"
    if "CHR ''&'' \<notin> set val \<and> CHR 0x22 \<notin> set val"
    using that by (simp add: EscapeAttributeValueDoubleQuoted_def Let_def IndexRune_none
        unicodeAmpersand_def unicodeDoubleQuote_def)
  have p: "pre = val \<or> EscapeAmbiguousAmpersands tbl val = Inr pre"
    by (simp add: pre_def EscapeAmbiguousAmpersands_correct)
  have n: "CHR 0x22 \<notin> set (Replace pre (CHR 0x22) ''&#34;'')"
    by (rule Replace_no_old) simp
  have B: "\<exists>pre out. (pre = val \<or> EscapeAmbiguousAmpersands tbl val = Inr pre)
        \<and> EscapeAttributeValueDoubleQuoted tbl val = Inr out
        \<and> out = concat (map (\<lambda>c. if c = CHR 0x22 then ''&#34;'' else [c]) pre)
        \<and> CHR 0x22 \<notin> set out"
    using p r n unfolding Replace_concat by blast
  have C: "EscapeAttributeValueDoubleQuoted tbl (''&dan;'' @ CHR 0x22 # ''xxx'' @ [CHR 0x22])
          = Inr ''&amp;dan;&#34;xxx&#34;''"
    if "\<not> IsCharacterReferenceName tbl ''dan''"
    using that
    by (simp add: EscapeAttributeValueDoubleQuoted_correct Let_def ambiguousHead_def
        alnum_def less_eq_char_def)
  show ?thesis using A B C by blast
qed

theorem C9_witness:
  "\<not> IsCharacterReferenceName sampleTable ''dan''
   \<and> EscapeAttributeValueDoubleQuoted sampleTable (''&dan;'' @ CHR 0x22 # ''xxx'' @ [CHR 0x22])
       = Inr ''&amp;dan;&#34;xxx&#34;''
   \<and> EscapeAttributeValueDoubleQuoted sampleTable ''ok fine'' = Inr ''ok fine''"
proof -
  have a: "\<not> IsCharacterReferenceName sampleTable ''dan''"
    by (simp add: sampleTable_def IsCharacterReferenceName_def)
  have b: "CHR ''&'' \<notin> set ''ok fine'' \<and> CHR 0x22 \<notin> set ''ok fine''" by simp
  show ?thesis
    using C9_quotes_always_escaped[of "''ok fine''" sampleTable, THEN conjunct1] b
      C9_quotes_always_escaped[of _ sampleTable, THEN conjunct2, THEN conjunct2] a
    by blast
qed

section \<open>The CSS3 identifier validator: decoding\<close>

lemma decodeRune_ascii:
  assumes "decodeRune (b # s) = (r, w)" "r < 0x80"
  shows "w = 1 \<and> r = of_char b"
  using assms
  by (auto simp: Let_def RuneError_def split: if_splits list.splits)

lemma decodeRune_ascii_byte:
  "(of_char b :: nat) < 0x80 \<Longrightarrow> decodeRune (b # s) = (of_char b, 1)"
  by simp

lemma decodeRune_width_le: "bs \<noteq> [] \<Longrightarrow> snd (decodeRune bs) \<le> length bs"
  by (cases bs) (auto simp: Let_def split: list.splits)

lemma decodeRune_snoc:
  assumes "(of_char a :: nat) < 0x80" "bs \<noteq> []"
  shows "decodeRune (bs @ [a]) = decodeRune bs"
proof -
  have nc: "\<not> isContinuation a" using assms(1) by (simp add: isContinuation_def)
  obtain b0 s0 where bs: "bs = b0 # s0" using assms(2) by (cases bs) auto
  show ?thesis
  proof (cases s0)
    case Nil
    then show ?thesis using bs nc by (simp add: Let_def)
  next
    case (Cons b1 s1)
    note s0 = Cons
    show ?thesis
    proof (cases s1)
      case Nil
      then show ?thesis using bs s0 nc by (simp add: Let_def)
    next
      case (Cons b2 s2)
      note s1 = Cons
      show ?thesis
      proof (cases s2)
        case Nil
        then show ?thesis using bs s0 s1 nc by (simp add: Let_def)
      next
        case (Cons b3 s3)
        then show ?thesis using bs s0 s1 by (simp add: Let_def)
      qed
    qed
  qed
qed

lemma rangeString_nonempty:
  "s \<noteq> [] \<Longrightarrow>
   rangeString i s = (i, fst (decodeRune s)) # rangeString (i + snd (decodeRune s)) (drop (snd (decodeRune s)) s)"
  by (cases s) (simp_all add: case_prod_beta)

lemma rangeString_snoc:
  assumes "(of_char a :: nat) < 0x80"
  shows "rangeString i (bs @ [a]) = rangeString i bs @ [(i + length bs, of_char a)]"
proof (induction "length bs" arbitrary: bs i rule: less_induct)
  case less
  show ?case
  proof (cases "bs = []")
    case True
    then show ?thesis using assms by simp
  next
    case False
    define w where "w = snd (decodeRune bs)"
    have w: "1 \<le> w" "w \<le> length bs"
      using decodeRune_width[of bs] decodeRune_width_le[OF False] by (simp_all add: w_def)
    have d: "decodeRune (bs @ [a]) = decodeRune bs"
      by (rule decodeRune_snoc[OF assms False])
    have "rangeString i (bs @ [a]) =
        (i, fst (decodeRune bs)) # rangeString (i + w) (drop w bs @ [a])"
      using w by (subst rangeString_nonempty) (simp_all add: d w_def)
    also have "rangeString (i + w) (drop w bs @ [a]) =
        rangeString (i + w) (drop w bs) @ [(i + w + length (drop w bs), of_char a)]"
      using w False by (intro less.hyps) simp
    also have "i + w + length (drop w bs) = i + length bs" using w by simp
    finally show ?thesis
      using False by (subst (2) rangeString_nonempty) (simp_all add: w_def)
  qed
qed

lemma rangeString_index_ge: "(j, r) \<in> set (rangeString i s) \<Longrightarrow> i \<le> j"
proof (induction "length s" arbitrary: s i rule: less_induct)
  case less
  show ?case
  proof (cases "s = []")
    case True
    then show ?thesis using less.prems by simp
  next
    case False
    define w where "w = snd (decodeRune s)"
    have w: "1 \<le> w" using decodeRune_width[of s] by (simp add: w_def)
    from less.prems have "j = i \<or> (j, r) \<in> set (rangeString (i + w) (drop w s))"
      by (subst (asm) rangeString_nonempty[OF False]) (auto simp: w_def)
    then show ?thesis
    proof
      assume "j = i" then show ?thesis by simp
    next
      assume "(j, r) \<in> set (rangeString (i + w) (drop w s))"
      then have "i + w \<le> j" using w False by (intro less.hyps[of "drop w s"]) simp_all
      then show ?thesis by simp
    qed
  qed
qed


section \<open>The CSS3 identifier validator: one iteration\<close>

lemma rune_values:
  "rune CHR ''0'' = 48" "rune CHR ''9'' = 57" "rune CHR ''-'' = 45" "rune CHR ''_'' = 95"
  "rune CHR ''a'' = 97" "rune CHR ''f'' = 102" "rune CHR ''z'' = 122"
  "rune CHR ''A'' = 65" "rune CHR ''F'' = 70" "rune CHR ''Z'' = 90" "rune (CHR 0x5C) = 92"
  by (simp_all add: rune_def)

lemma cssBody_name_rune:
  assumes "isNameRune c" "\<not> (i = 0 \<and> isDigitRune c)"
    "\<not> (i = 1 \<and> first st = rune CHR ''-'' \<and> (c = rune CHR ''-'' \<or> isDigitRune c))"
  shows "\<exists>st'. cssBody st i c = Some st' \<and> first st' = (if i = 0 then c else first st)"
proof -
  define st1 where "st1 = (if i = 0 then st\<lparr>first := c\<rparr> else st)"
  define st2 where "st2 = (if hexCount st1 > 6 then st1\<lparr>inEscape := False\<rparr> else st1)"
  have f: "first st2 = (if i = 0 then c else first st)"
    by (simp add: st1_def st2_def)
  have g1: "\<not> (i = 0 \<and> first st1 \<ge> rune CHR ''0'' \<and> first st1 \<le> rune CHR ''9'')"
    using assms(2) by (auto simp: st1_def isDigitRune_def)
  have g2: "\<not> (i = 1 \<and> first st1 = rune CHR ''-''
            \<and> (c = rune CHR ''-'' \<or> (c \<ge> rune CHR ''0'' \<and> c \<le> rune CHR ''9'')))"
    using assms(3) by (auto simp: st1_def isDigitRune_def)
  have body: "cssBody st i c =
     (if c \<ge> 0xA0 then Some (st2\<lparr>inEscape := False, wasSlash := False\<rparr>)
      else if c = rune CHR ''-'' \<or> c = rune CHR ''_'' then
        Some (st2\<lparr>inEscape := False, wasSlash := False\<rparr>)
      else if c \<ge> rune CHR ''a'' \<and> c \<le> rune CHR ''z'' then
        (if c > rune CHR ''f'' then Some (st2\<lparr>wasSlash := False, inEscape := False\<rparr>)
         else Some (st2\<lparr>wasSlash := False, hexCount := hexCount st2 + 1\<rparr>))
      else if c \<ge> rune CHR ''A'' \<and> c \<le> rune CHR ''Z'' then
        (if c > rune CHR ''F'' then Some (st2\<lparr>wasSlash := False, inEscape := False\<rparr>)
         else Some (st2\<lparr>wasSlash := False, hexCount := hexCount st2 + 1\<rparr>))
      else if c \<ge> rune CHR ''0'' \<and> c \<le> rune CHR ''9'' then
        Some (st2\<lparr>wasSlash := False, hexCount := hexCount st2 + 1\<rparr>)
      else if c = rune CHR 0x5C then
        Some (st2\<lparr>hexCount := 0, wasSlash := True, inEscape := True\<rparr>)
      else if inEscape st2
              \<and> (c = 0x20 \<or> c = 0x09 \<or> c = 0x0A \<or> c = 0x0D \<or> c = 0x0C)
      then Some (st2\<lparr>inEscape := False, wasSlash := False\<rparr>)
      else if wasSlash st2 then Some (st2\<lparr>wasSlash := False, inEscape := False\<rparr>)
      else None)"
    unfolding cssBody_def Let_def st1_def[symmetric] st2_def[symmetric]
    using g1 g2 by (simp only: if_False)
  from assms(1) consider "c \<ge> 0xA0" | "c = rune CHR ''-'' \<or> c = rune CHR ''_''"
    | "rune CHR ''a'' \<le> c \<and> c \<le> rune CHR ''z''" | "rune CHR ''A'' \<le> c \<and> c \<le> rune CHR ''Z''"
    | "rune CHR ''0'' \<le> c \<and> c \<le> rune CHR ''9''"
    by (auto simp: isNameRune_def isDigitRune_def)
  then show ?thesis
  proof cases
    case 1
    then show ?thesis unfolding body using f by simp
  next
    case 2
    then show ?thesis unfolding body using f by simp
  next
    case 3
    then show ?thesis unfolding body using f by simp
  next
    case 4
    then show ?thesis unfolding body using f by simp
  next
    case 5
    then show ?thesis unfolding body using f by simp
  qed
qed

lemma cssLoop_name_runes:
  assumes "\<forall>(j, r) \<in> set ps. 2 \<le> j \<and> isNameRune r"
  shows "cssLoop st ps"
  using assms
proof (induction ps arbitrary: st)
  case Nil
  then show ?case by simp
next
  case (Cons p ps)
  obtain j r where p: "p = (j, r)" by (cases p)
  have "2 \<le> j" "isNameRune r" using Cons.prems p by auto
  then obtain st' where "cssBody st j r = Some st'"
    using cssBody_name_rune[of r j st] by auto
  then show ?case using Cons p by simp
qed

section \<open>Claims about the CSS3 identifier validator\<close>

text \<open>
  Claim C6. \<^verbatim>\<open>IsValidCss3Identifier\<close> returns false for the empty string and for every
  input whose code points hit a start rule (first code point an ASCII digit, or first
  a hyphen and second a hyphen or an ASCII digit). It returns true for every non-empty
  input that hits no start rule and consists of code points from \<open>U+00A0\<close> on, hyphens,
  underscores and ASCII letters and digits. \<open>abc123DEF\<close> is valid; \<open>--lua\<close>, \<open>-1a\<close> and
  \<open>2\<close> are not.
\<close>

theorem C6_start_rules_and_plain_identifiers:
  "IsValidCss3Identifier [] = False
   \<and> (badStart (codePoints val) \<longrightarrow> IsValidCss3Identifier val = False)
   \<and> (val \<noteq> [] \<and> \<not> badStart (codePoints val) \<and> (\<forall>r \<in> set (codePoints val). isNameRune r)
        \<longrightarrow> IsValidCss3Identifier val = True)
   \<and> IsValidCss3Identifier ''abc123DEF'' = True
   \<and> IsValidCss3Identifier ''--lua'' = False
   \<and> IsValidCss3Identifier ''-1a'' = False
   \<and> IsValidCss3Identifier ''2'' = False"
proof -
  have E: "IsValidCss3Identifier [] = False" by (simp add: IsValidCss3Identifier_def)
  have shape: "\<exists>r0 w0. 1 \<le> w0 \<and> decodeRune val = (r0, w0)
      \<and> rangeString 0 val = (0, r0) # rangeString w0 (drop w0 val)" if "val \<noteq> []"
    using rangeString_nonempty[OF that, of 0] decodeRune_width[of val]
    by (cases "decodeRune val") auto
  have shape2: "\<exists>r1 w1. 1 \<le> w1
      \<and> rangeString i s = (i, r1) # rangeString (i + w1) (drop w1 s)" if "s \<noteq> []" for i s
    using rangeString_nonempty[OF that, of i] decodeRune_width[of s]
    by (cases "decodeRune s") auto
  have A: "IsValidCss3Identifier val = False" if bad: "badStart (codePoints val)"
  proof -
    have ne: "val \<noteq> []" using bad by (auto simp: codePoints_def)
    from shape[OF ne] obtain r0 w0 where w0: "1 \<le> w0" "decodeRune val = (r0, w0)"
      and rs: "rangeString 0 val = (0, r0) # rangeString w0 (drop w0 val)" by blast
    show ?thesis
    proof (cases "isDigitRune r0")
      case True
      then have "cssBody cssInit 0 r0 = None"
        by (simp add: cssBody_def isDigitRune_def Let_def)
      then show ?thesis using ne rs by (simp add: IsValidCss3Identifier_def)
    next
      case False
      then obtain r1 rest where cp: "codePoints val = r0 # r1 # rest"
        and b: "r0 = rune CHR ''-''" "r1 = rune CHR ''-'' \<or> isDigitRune r1"
        using bad rs by (cases "map snd (rangeString w0 (drop w0 val))")
          (auto simp: codePoints_def)
      obtain b0 s0 where v: "val = b0 # s0" using ne by (cases val) auto
      have "w0 = 1" using decodeRune_ascii[of b0 s0 r0 w0] w0(2) v b(1) by (simp add: rune_def)
      then have rs1: "rangeString 0 val = (0, r0) # rangeString 1 (drop 1 val)" using rs by simp
      have "drop 1 val \<noteq> []" using cp rs1 by (auto simp: codePoints_def)
      from shape2[OF this, of 1] obtain r1' w1 where
        rs2: "rangeString 1 (drop 1 val) = (1, r1') # rangeString (1 + w1) (drop w1 (drop 1 val))"
        by blast
      have "r1' = r1" using cp rs1 rs2 by (simp add: codePoints_def)
      obtain st1 where st1: "cssBody cssInit 0 r0 = Some st1" "first st1 = r0"
        using b(1) by (simp add: cssBody_def Let_def rune_def cssInit_def)
      have "cssBody st1 1 r1 = None"
        using b st1(2) by (auto simp: cssBody_def Let_def isDigitRune_def)
      then show ?thesis using ne rs1 rs2 st1 \<open>r1' = r1\<close>
        by (simp add: IsValidCss3Identifier_def)
    qed
  qed
  have B: "IsValidCss3Identifier val = True"
    if h: "val \<noteq> [] \<and> \<not> badStart (codePoints val) \<and> (\<forall>r \<in> set (codePoints val). isNameRune r)"
  proof -
    from h have ne: "val \<noteq> []" by simp
    from shape[OF ne] obtain r0 w0 where w0: "1 \<le> w0" "decodeRune val = (r0, w0)"
      and rs: "rangeString 0 val = (0, r0) # rangeString w0 (drop w0 val)" by blast
    have all: "\<forall>(j, r) \<in> set (rangeString 0 val). isNameRune r"
      using h by (auto simp: codePoints_def)
    have nd: "\<not> isDigitRune r0" using h rs
      by (cases "map snd (rangeString w0 (drop w0 val))") (auto simp: codePoints_def)
    have "isNameRune r0" using all rs by simp
    from cssBody_name_rune[OF this, of 0 cssInit] nd
    obtain st1 where st1: "cssBody cssInit 0 r0 = Some st1" "first st1 = r0" by auto
    have "cssLoop st1 (rangeString w0 (drop w0 val))"
    proof (cases "drop w0 val = []")
      case True
      then show ?thesis by simp
    next
      case False
      from shape2[OF False, of w0] obtain r1 w1 where w1: "1 \<le> w1" and
        rs2: "rangeString w0 (drop w0 val) = (w0, r1) # rangeString (w0 + w1) (drop w1 (drop w0 val))"
        by blast
      have n1: "isNameRune r1" using all rs rs2 by simp
      have nb: "\<not> (r0 = rune CHR ''-'' \<and> (r1 = rune CHR ''-'' \<or> isDigitRune r1))"
        using h rs rs2 by (auto simp: codePoints_def)
      from cssBody_name_rune[OF n1, of w0 st1] w0(1) nb st1(2)
      obtain st2 where st2: "cssBody st1 w0 r1 = Some st2" by auto
      have "\<forall>(j, r) \<in> set (rangeString (w0 + w1) (drop w1 (drop w0 val))). 2 \<le> j \<and> isNameRune r"
      proof (clarify, rule conjI)
        fix j r assume m: "(j, r) \<in> set (rangeString (w0 + w1) (drop w1 (drop w0 val)))"
        from rangeString_index_ge[OF m] show "2 \<le> j" using w0(1) w1 by simp
        show "isNameRune r" using all m rs rs2 by auto
      qed
      from cssLoop_name_runes[OF this] show ?thesis using rs2 st2 by simp
    qed
    then show ?thesis using ne rs st1 by (simp add: IsValidCss3Identifier_def)
  qed
  have C: "IsValidCss3Identifier ''abc123DEF'' = True" by code_simp
  have D: "IsValidCss3Identifier ''--lua'' = False" by code_simp
  have F: "IsValidCss3Identifier ''-1a'' = False" by code_simp
  have G: "IsValidCss3Identifier ''2'' = False" by code_simp
  show ?thesis using E A B C D F G by blast
qed


theorem C6_witness:
  "badStart (codePoints ''-1a'') \<and> IsValidCss3Identifier ''-1a'' = False
   \<and> badStart (codePoints ''1a'') \<and> IsValidCss3Identifier ''1a'' = False
   \<and> \<not> badStart (codePoints [CHR 0xC2, CHR 0xA9, CHR ''2'', CHR ''0'', CHR ''0'', CHR ''5''])
   \<and> list_all isNameRune (codePoints [CHR 0xC2, CHR 0xA9, CHR ''2'', CHR ''0'', CHR ''0'', CHR ''5''])
   \<and> IsValidCss3Identifier [CHR 0xC2, CHR 0xA9, CHR ''2'', CHR ''0'', CHR ''0'', CHR ''5''] = True"
proof -
  have c1: "codePoints ''-1a'' = [45, 49, 97]" by code_simp
  have c2: "codePoints ''1a'' = [49, 97]" by code_simp
  have c3: "codePoints [CHR 0xC2, CHR 0xA9, CHR ''2'', CHR ''0'', CHR ''0'', CHR ''5'']
      = [0xA9, 50, 48, 48, 53]" by code_simp
  have b1: "badStart (codePoints ''-1a'')"
    unfolding c1 by (simp add: isDigitRune_def rune_values)
  have b2: "badStart (codePoints ''1a'')"
    unfolding c2 by (simp add: isDigitRune_def rune_values)
  have b3: "\<not> badStart (codePoints [CHR 0xC2, CHR 0xA9, CHR ''2'', CHR ''0'', CHR ''0'', CHR ''5''])"
    unfolding c3 by (simp add: isDigitRune_def rune_values)
  have n3: "list_all isNameRune (codePoints [CHR 0xC2, CHR 0xA9, CHR ''2'', CHR ''0'', CHR ''0'', CHR ''5''])"
    unfolding c3 by (simp add: isNameRune_def isDigitRune_def rune_values)
  show ?thesis
    using C6_start_rules_and_plain_identifiers[of "''-1a''"]
      C6_start_rules_and_plain_identifiers[of "''1a''"]
      C6_start_rules_and_plain_identifiers[of "[CHR 0xC2, CHR 0xA9, CHR ''2'', CHR ''0'', CHR ''0'', CHR ''5'']"]
      b1 b2 b3 n3
    by (simp add: list_all_iff)
qed


lemma cssBody_rules0:
  "cssBody st0 i char =
     (let st1 = (if i = 0 then st0\<lparr>first := char\<rparr> else st0) in
      if i = 0 \<and> first st1 \<ge> rune CHR ''0'' \<and> first st1 \<le> rune CHR ''9'' then None
      else
        (let second = char in
         if i = 1 \<and> first st1 = rune CHR ''-''
            \<and> (second = rune CHR ''-'' \<or> (second \<ge> rune CHR ''0'' \<and> second \<le> rune CHR ''9''))
         then None
         else
           (let st = (if hexCount st1 > 6 then st1\<lparr>inEscape := False\<rparr> else st1) in
            cssRules st char)))"
  by (simp only: cssBody_def cssRules_def)

lemma cssBody_rules:
  "cssBody st i c =
     (if i = 0 \<and> isDigitRune c then None
      else if i = 1 \<and> first st = rune CHR ''-'' \<and> (c = rune CHR ''-'' \<or> isDigitRune c) then None
      else cssRules ((if i = 0 then st\<lparr>first := c\<rparr> else st)
                      \<lparr>inEscape := inEscape st \<and> hexCount st \<le> 6\<rparr>) c)"
proof (cases "i = 0")
  case True
  then show ?thesis
    by (cases "hexCount st > 6") (simp_all add: cssBody_rules0 isDigitRune_def Let_def)
next
  case False
  then show ?thesis
    by (cases "hexCount st > 6") (auto simp: cssBody_rules0 isDigitRune_def Let_def)
qed

lemma cssRules_backslash:
  "cssRules st (rune (CHR 0x5C)) = Some (st\<lparr>hexCount := 0, wasSlash := True, inEscape := True\<rparr>)"
  by (simp add: cssRules_def rune_values)




lemma backslash_accepted:
  "cssBody st i (rune (CHR 0x5C)) =
     Some ((if i = 0 then st\<lparr>first := rune (CHR 0x5C)\<rparr> else st)
            \<lparr>inEscape := True, hexCount := 0, wasSlash := True\<rparr>)"
  by (simp add: cssBody_rules cssRules_backslash[unfolded rune_values] isDigitRune_def rune_values)










text \<open>A backslash is accepted in every state and at every index.\<close>

lemma cssLoop_snoc_backslash:
  "cssLoop st ps \<Longrightarrow> cssLoop st (ps @ [(i, rune (CHR 0x5C))])"
proof (induction ps arbitrary: st)
  case Nil
  then show ?case by (simp add: backslash_accepted)
next
  case (Cons p ps)
  obtain j r where p: "p = (j, r)" by (cases p)
  show ?case using Cons p by (auto split: option.splits)
qed

text \<open>
  Claim C10. Appending a backslash to the empty string or to a string that the
  validator accepts gives a string that the validator accepts: the escape that the
  backslash starts need not be completed. \<open>\\<close> and \<open>a\\<close> are valid.
\<close>

theorem C10_trailing_backslash_accepted:
  "(p = [] \<or> IsValidCss3Identifier p \<longrightarrow> IsValidCss3Identifier (p @ [CHR 0x5C]) = True)
   \<and> IsValidCss3Identifier [CHR 0x5C] = True
   \<and> IsValidCss3Identifier [CHR ''a'', CHR 0x5C] = True"
proof -
  have r: "rangeString 0 (p @ [CHR 0x5C]) = rangeString 0 p @ [(length p, rune (CHR 0x5C))]"
    using rangeString_snoc[of "CHR 0x5C" 0 p] by (simp add: rune_def)
  have A: "IsValidCss3Identifier (p @ [CHR 0x5C]) = True" if "p = [] \<or> IsValidCss3Identifier p"
  proof -
    have "cssLoop cssInit (rangeString 0 p)"
      using that by (auto simp: IsValidCss3Identifier_def split: if_splits)
    from cssLoop_snoc_backslash[OF this] show ?thesis
      by (simp add: IsValidCss3Identifier_def r)
  qed
  have B: "IsValidCss3Identifier [CHR 0x5C] = True" by code_simp
  have C: "IsValidCss3Identifier [CHR ''a'', CHR 0x5C] = True" by code_simp
  show ?thesis using A B C by blast
qed

theorem C10_witness:
  "IsValidCss3Identifier ''te'' \<and> IsValidCss3Identifier [CHR ''t'', CHR ''e'', CHR 0x5C] = True"
proof -
  have a: "IsValidCss3Identifier ''te''" by code_simp
  show ?thesis
    using C10_trailing_backslash_accepted[of "''te''", THEN conjunct1] a by simp
qed

end
